theory Spec2Isabelle
  imports Complex_Main "HOL-Library.AList"
begin

section \<open>Data model (types.ts)\<close>

text \<open>
  A browser \<open>File\<close> as far as the program reads it: its name, its declared MIME type and
  its byte length. A \<open>Blob\<close> is the list of its bytes; \<open>blob.size\<close> is the length.
  Strings are lists of code units; every string the program compares against is ASCII.
\<close>

record File =
  file_name :: string
  file_type :: string
  file_size :: nat

type_synonym blob = "nat list"

datatype status = Idle | Pending | Converting | Completed | Error

text \<open>
  The values a JavaScript \<open>number\<close> takes in this program: the integers, and the two
  results of a division by zero that \<open>Math.round\<close> passes on, \<open>NaN\<close> (from \<open>0 / 0\<close>) and
  \<open>Infinity\<close> (from a positive number over 0).
\<close>

datatype jsnum = Num int | NaN | Infinity

text \<open>
  \<open>ProcessedImage\<close>. The optional fields (\<open>webpBlob?\<close>, \<open>error?\<close>, ...) are options, with
  \<open>None\<close> for \<open>undefined\<close>. The field \<open>id\<close> is named \<open>img_id\<close> here.
\<close>

record ProcessedImage =
  img_id :: string
  originalFile :: File
  status :: status
  webpBlob :: "blob option"
  webpUrl :: "string option"
  originalSize :: nat
  newSize :: "nat option"
  error :: "string option"
  progress :: "jsnum option"
  delayDuration :: "int option"
  targetQuality :: "rat option"

text \<open>
  \<open>Partial<ProcessedImage>\<close>: every key may be absent (\<open>None\<close>) or present. A present key
  of an optional field may carry \<open>undefined\<close> (\<open>Some None\<close>), as in
  \<open>{ error: undefined }\<close>; the object spread copies it all the same.
\<close>

record updates =
  u_id :: "string option"
  u_originalFile :: "File option"
  u_status :: "status option"
  u_webpBlob :: "blob option option"
  u_webpUrl :: "string option option"
  u_originalSize :: "nat option"
  u_newSize :: "nat option option"
  u_error :: "string option option"
  u_progress :: "jsnum option option"
  u_delayDuration :: "int option option"
  u_targetQuality :: "rat option option"

definition no_updates :: updates where
  "no_updates = \<lparr> u_id = None, u_originalFile = None, u_status = None, u_webpBlob = None,
     u_webpUrl = None, u_originalSize = None, u_newSize = None, u_error = None,
     u_progress = None, u_delayDuration = None, u_targetQuality = None \<rparr>"

fun override :: "'a option \<Rightarrow> 'a \<Rightarrow> 'a" where
  "override None old = old"
| "override (Some v) old = v"

text \<open>The object spread \<open>{ ...img, ...updates }\<close>.\<close>

definition spread :: "ProcessedImage \<Rightarrow> updates \<Rightarrow> ProcessedImage" where
  "spread img u = \<lparr>
     img_id = override (u_id u) (img_id img),
     originalFile = override (u_originalFile u) (originalFile img),
     status = override (u_status u) (status img),
     webpBlob = override (u_webpBlob u) (webpBlob img),
     webpUrl = override (u_webpUrl u) (webpUrl img),
     originalSize = override (u_originalSize u) (originalSize img),
     newSize = override (u_newSize u) (newSize img),
     error = override (u_error u) (error img),
     progress = override (u_progress u) (progress img),
     delayDuration = override (u_delayDuration u) (delayDuration img),
     targetQuality = override (u_targetQuality u) (targetQuality img) \<rparr>"

section \<open>The state updaters of App.tsx\<close>

text \<open>
  Each handler passes an updater to \<open>setImages\<close>; the model is that updater, a function
  from the previous item list to the next one.
\<close>

definition handleFilesAdded ::
  "rat \<Rightarrow> ProcessedImage list \<Rightarrow> ProcessedImage list \<Rightarrow> ProcessedImage list" where
  "handleFilesAdded globalQuality newFiles currentImages =
     (let effectiveQuality = globalQuality;
          totalNew = int (length newFiles);
          delay = min 20000 (3000 + totalNew * 1000);
          filesWithSettings =
            map (\<lambda>f. f\<lparr> delayDuration := Some delay, targetQuality := Some effectiveQuality \<rparr>)
              newFiles
      in currentImages @ filesWithSettings)"

definition start_one :: "ProcessedImage \<Rightarrow> ProcessedImage" where
  "start_one img = (if status img = Idle then img\<lparr> status := Pending \<rparr> else img)"

definition handleStartConversion :: "ProcessedImage list \<Rightarrow> ProcessedImage list" where
  "handleStartConversion prev = map start_one prev"

definition update_one :: "string \<Rightarrow> updates \<Rightarrow> ProcessedImage \<Rightarrow> ProcessedImage" where
  "update_one i u img = (if img_id img = i then spread img u else img)"

definition handleUpdateImage ::
  "string \<Rightarrow> updates \<Rightarrow> ProcessedImage list \<Rightarrow> ProcessedImage list" where
  "handleUpdateImage i u prev = map (update_one i u) prev"

definition retry_one :: "string \<Rightarrow> ProcessedImage \<Rightarrow> ProcessedImage" where
  "retry_one i img =
     (if img_id img = i
      then img\<lparr> status := Pending, error := None, progress := Some (Num 0),
                delayDuration := Some 3000 \<rparr>
      else img)"

definition handleRetry :: "string \<Rightarrow> ProcessedImage list \<Rightarrow> ProcessedImage list" where
  "handleRetry i prev = map (retry_one i) prev"

definition handleClearCompleted :: "ProcessedImage list \<Rightarrow> ProcessedImage list" where
  "handleClearCompleted prev = filter (\<lambda>img. status img \<noteq> Completed) prev"

definition handleClearErrors :: "ProcessedImage list \<Rightarrow> ProcessedImage list" where
  "handleClearErrors prev = filter (\<lambda>img. status img \<noteq> Error) prev"

text \<open>Three concrete items used in the examples below.\<close>

definition photo :: ProcessedImage where
  "photo = \<lparr> img_id = ''a'',
     originalFile = \<lparr> file_name = ''photo.jpg'', file_type = ''image/jpeg'', file_size = 4 \<rparr>,
     status = Idle, webpBlob = None, webpUrl = None, originalSize = 4, newSize = None,
     error = None, progress = None, delayDuration = None, targetQuality = None \<rparr>"

definition photo_done :: ProcessedImage where
  "photo_done = photo\<lparr> status := Completed, webpBlob := Some [1, 2], webpUrl := Some ''blob:0'',
     newSize := Some 2, progress := Some (Num 100), delayDuration := Some 4000,
     targetQuality := Some (4 / 5) \<rparr>"

definition photo_failed :: ProcessedImage where
  "photo_failed = photo\<lparr> img_id := ''b'', status := Error,
     error := Some ''Failed to load image'', progress := Some (Num 12),
     delayDuration := Some 6000, targetQuality := Some (4 / 5) \<rparr>"

section \<open>Ingestion delay\<close>

text \<open>
  C3. A batch of \<open>n\<close> new items is appended after the current items, and each of its items
  gets \<open>delayDuration = min(20000, 3000 + 1000 * n)\<close>: 6000 for a batch of three, the cap
  20000 for a batch of twenty-five.
\<close>

theorem handleFilesAdded_delay:
  "length (handleFilesAdded q newFiles cur) = length cur + length newFiles
   \<and> take (length cur) (handleFilesAdded q newFiles cur) = cur
   \<and> (\<forall>k < length newFiles.
        delayDuration (handleFilesAdded q newFiles cur ! (length cur + k))
          = Some (min 20000 (3000 + 1000 * int (length newFiles))))
   \<and> (length newFiles = 3 \<longrightarrow>
        (\<forall>img \<in> set (drop (length cur) (handleFilesAdded q newFiles cur)).
           delayDuration img = Some 6000))
   \<and> (length newFiles = 25 \<longrightarrow>
        (\<forall>img \<in> set (drop (length cur) (handleFilesAdded q newFiles cur)).
           delayDuration img = Some 20000))"
  by (auto simp: handleFilesAdded_def Let_def nth_append mult.commute)

theorem handleFilesAdded_delay_witness:
  "length (handleFilesAdded (4 / 5) [photo, photo, photo] [photo_done]) = 4
   \<and> delayDuration (handleFilesAdded (4 / 5) [photo, photo, photo] [photo_done] ! 1) = Some 6000
   \<and> delayDuration (handleFilesAdded (4 / 5) [photo, photo, photo] [photo_done] ! 2) = Some 6000
   \<and> delayDuration (handleFilesAdded (4 / 5) [photo, photo, photo] [photo_done] ! 3) = Some 6000
   \<and> delayDuration (handleFilesAdded (4 / 5) (replicate 25 photo) [photo_done] ! 25)
     = Some 20000"
proof -
  have three: "\<forall>k < length [photo, photo, photo].
          delayDuration (handleFilesAdded (4 / 5) [photo, photo, photo] [photo_done]
            ! (length [photo_done] + k)) = Some 6000"
    and len: "length (handleFilesAdded (4 / 5) [photo, photo, photo] [photo_done]) = 4"
    using handleFilesAdded_delay [of "4 / 5" "[photo, photo, photo]" "[photo_done]"]
    by simp_all
  have many: "\<forall>k < length (replicate 25 photo).
      delayDuration (handleFilesAdded (4 / 5) (replicate 25 photo) [photo_done]
        ! (length [photo_done] + k)) = Some 20000"
    using handleFilesAdded_delay [of "4 / 5" "replicate 25 photo" "[photo_done]"] by simp
  show ?thesis
    using len three [rule_format, of 0] three [rule_format, of 1] three [rule_format, of 2]
      many [rule_format, of 24]
    by (simp add: numeral_2_eq_2 numeral_3_eq_3)
qed

section \<open>Patching and retrying one item\<close>

text \<open>
  C10. \<open>handleUpdateImage\<close> keeps the length and the order of the list (position \<open>k\<close> of
  the result comes from position \<open>k\<close> of the input), leaves every item with another id as
  it is, and leaves the whole list as it is when no item has the given id.
\<close>

theorem handleUpdateImage_frame:
  "length (handleUpdateImage i u prev) = length prev
   \<and> (\<forall>k < length prev.
        handleUpdateImage i u prev ! k
          = (if img_id (prev ! k) = i then spread (prev ! k) u else prev ! k))
   \<and> (\<forall>k < length prev. img_id (prev ! k) \<noteq> i \<longrightarrow>
        handleUpdateImage i u prev ! k = prev ! k)
   \<and> (i \<notin> img_id ` set prev \<longrightarrow> handleUpdateImage i u prev = prev)"
proof -
  have "i \<notin> img_id ` set prev \<Longrightarrow> map (update_one i u) prev = prev"
    by (induction prev) (auto simp: update_one_def)
  then show ?thesis
    by (auto simp: handleUpdateImage_def update_one_def)
qed

theorem handleUpdateImage_frame_witness:
  "handleUpdateImage ''b'' (no_updates\<lparr> u_progress := Some (Some (Num 12)) \<rparr>)
      [photo, photo\<lparr> img_id := ''b'' \<rparr>] ! 0 = photo
   \<and> handleUpdateImage ''b'' (no_updates\<lparr> u_progress := Some (Some (Num 12)) \<rparr>)
      [photo, photo\<lparr> img_id := ''b'' \<rparr>] ! 1 = photo\<lparr> img_id := ''b'', progress := Some (Num 12) \<rparr>
   \<and> handleUpdateImage ''c'' (no_updates\<lparr> u_progress := Some (Some (Num 12)) \<rparr>)
      [photo, photo\<lparr> img_id := ''b'' \<rparr>] = [photo, photo\<lparr> img_id := ''b'' \<rparr>]"
  using handleUpdateImage_frame [of "''b''" "no_updates\<lparr> u_progress := Some (Some (Num 12)) \<rparr>"
      "[photo, photo\<lparr> img_id := ''b'' \<rparr>]"]
    handleUpdateImage_frame [of "''c''" "no_updates\<lparr> u_progress := Some (Some (Num 12)) \<rparr>"
      "[photo, photo\<lparr> img_id := ''b'' \<rparr>]"]
  by (simp add: photo_def spread_def no_updates_def)

text \<open>
  C4. \<open>handleRetry\<close> keeps the length of the list; the item with the given id gets status
  \<open>pending\<close>, no error, progress 0 and \<open>delayDuration = 3000\<close>, and keeps its
  \<open>targetQuality\<close> and every other field; an item with another id is unchanged.
\<close>

theorem handleRetry_effect:
  "length (handleRetry i prev) = length prev
   \<and> (\<forall>k < length prev. img_id (prev ! k) = i \<longrightarrow>
        status (handleRetry i prev ! k) = Pending
        \<and> error (handleRetry i prev ! k) = None
        \<and> progress (handleRetry i prev ! k) = Some (Num 0)
        \<and> delayDuration (handleRetry i prev ! k) = Some 3000
        \<and> targetQuality (handleRetry i prev ! k) = targetQuality (prev ! k)
        \<and> img_id (handleRetry i prev ! k) = img_id (prev ! k)
        \<and> originalFile (handleRetry i prev ! k) = originalFile (prev ! k)
        \<and> webpBlob (handleRetry i prev ! k) = webpBlob (prev ! k)
        \<and> webpUrl (handleRetry i prev ! k) = webpUrl (prev ! k)
        \<and> originalSize (handleRetry i prev ! k) = originalSize (prev ! k)
        \<and> newSize (handleRetry i prev ! k) = newSize (prev ! k))
   \<and> (\<forall>k < length prev. img_id (prev ! k) \<noteq> i \<longrightarrow>
        handleRetry i prev ! k = prev ! k)"
  by (simp add: handleRetry_def retry_one_def)

theorem handleRetry_effect_witness:
  "handleRetry ''b'' [photo, photo_failed]
     = [photo, photo_failed\<lparr> status := Pending, error := None, progress := Some (Num 0),
                 delayDuration := Some 3000 \<rparr>]
   \<and> targetQuality (handleRetry ''b'' [photo, photo_failed] ! 1) = Some (4 / 5)"
proof -
  have "targetQuality (handleRetry ''b'' [photo, photo_failed] ! 1) = Some (4 / 5)"
    using handleRetry_effect [of "''b''" "[photo, photo_failed]"]
    by (simp add: photo_failed_def photo_def)
  moreover have "handleRetry ''b'' [photo, photo_failed]
     = [photo, photo_failed\<lparr> status := Pending, error := None, progress := Some (Num 0),
                 delayDuration := Some 3000 \<rparr>]"
    by (simp add: handleRetry_def retry_one_def photo_failed_def photo_def)
  ultimately show ?thesis by simp
qed

section \<open>Ingestion (DropZone.tsx, processFiles)\<close>

text \<open>
  \<open>toLowerCase\<close> is modelled on the ASCII letters. The program only asks whether the
  lower-cased name ends with \<open>.jpg\<close>, \<open>.jpeg\<close> or \<open>.png\<close>, and the only code units
  that lower-case to one of these letters are the letters themselves and their ASCII capitals.
\<close>

definition toLowerCase_char :: "char \<Rightarrow> char" where
  "toLowerCase_char c =
     (case map_of (zip ''ABCDEFGHIJKLMNOPQRSTUVWXYZ'' ''abcdefghijklmnopqrstuvwxyz'') c of
        Some l \<Rightarrow> l | None \<Rightarrow> c)"

definition toLowerCase :: "string \<Rightarrow> string" where
  "toLowerCase s = map toLowerCase_char s"

definition endsWith :: "string \<Rightarrow> string \<Rightarrow> bool" where
  "endsWith s suffix =
     (length suffix \<le> length s \<and> drop (length s - length suffix) s = suffix)"

text \<open>The decimal rendering of a count in a template literal.\<close>

definition digit :: "nat \<Rightarrow> char" where
  "digit d = ''0123456789'' ! d"

fun show_nat :: "nat \<Rightarrow> string" where
  "show_nat n = (if n < 10 then [digit n] else show_nat (n div 10) @ [digit (n mod 10)])"

declare show_nat.simps [simp del]

text \<open>
  The \<open>forEach\<close> of \<open>processFiles\<close> is a left fold over the file list that carries
  \<open>validFiles\<close> and \<open>invalidCount\<close>.
\<close>

definition isJpeg :: "File \<Rightarrow> bool" where
  "isJpeg file =
     (file_type file = ''image/jpeg''
      \<or> endsWith (toLowerCase (file_name file)) ''.jpg''
      \<or> endsWith (toLowerCase (file_name file)) ''.jpeg'')"

definition isPng :: "File \<Rightarrow> bool" where
  "isPng file =
     (file_type file = ''image/png'' \<or> endsWith (toLowerCase (file_name file)) ''.png'')"

definition classify_step :: "File list \<times> nat \<Rightarrow> File \<Rightarrow> File list \<times> nat" where
  "classify_step acc file =
     (case acc of (validFiles, invalidCount) \<Rightarrow>
        if isJpeg file \<or> isPng file then (validFiles @ [file], invalidCount)
        else (validFiles, invalidCount + 1))"

definition classify :: "File list \<Rightarrow> File list \<times> nat" where
  "classify filesArray = foldl classify_step ([], 0) filesArray"

definition ignored_message :: "nat \<Rightarrow> string" where
  "ignored_message invalidCount =
     show_nat invalidCount @ '' file'' @ (if invalidCount > 1 then ''s'' else [])
       @ '' ignored. Only JPG and PNG files are supported.''"

definition new_image :: "string \<Rightarrow> File \<Rightarrow> ProcessedImage" where
  "new_image i file = \<lparr> img_id = i, originalFile = file, status = Idle, webpBlob = None,
     webpUrl = None, originalSize = file_size file, newSize = None, error = None,
     progress = None, delayDuration = None, targetQuality = None \<rparr>"

text \<open>
  What one call of \<open>processFiles\<close> leaves behind: the \<open>error\<close> state of the drop zone
  (\<open>None\<close> for \<open>null\<close>) and the batch handed to \<open>onFilesAdded\<close>, if it was called. A
  \<open>null\<close> file list returns at once (\<open>None\<close>). \<open>generateId\<close> is imported from
  \<open>utils/format\<close>; here it is a parameter, the id returned by its k-th call.
\<close>

record drop_result =
  dz_error :: "string option"
  files_added :: "ProcessedImage list option"

definition processFiles :: "(nat \<Rightarrow> string) \<Rightarrow> File list option \<Rightarrow> drop_result option" where
  "processFiles generateId fileList =
     (case fileList of
        None \<Rightarrow> None
      | Some filesArray \<Rightarrow>
          (case classify filesArray of (validFiles, invalidCount) \<Rightarrow>
             let newImages =
                   map (\<lambda>(k, file). new_image (generateId k) file) (enumerate 0 validFiles)
             in Some \<lparr> dz_error =
                         (if invalidCount > 0 then Some (ignored_message invalidCount) else None),
                       files_added = (if length newImages > 0 then Some newImages else None) \<rparr>))"

definition added :: "drop_result \<Rightarrow> ProcessedImage list" where
  "added r = (case files_added r of None \<Rightarrow> [] | Some imgs \<Rightarrow> imgs)"

text \<open>Three files for the examples: a PNG known by its extension only, and two others.\<close>

definition shot :: File where
  "shot = \<lparr> file_name = ''Shot.PNG'', file_type = [], file_size = 7 \<rparr>"
definition memo :: File where
  "memo = \<lparr> file_name = ''notes.txt'', file_type = ''text/plain'', file_size = 9 \<rparr>"
definition anim :: File where
  "anim = \<lparr> file_name = ''anim.gif'', file_type = ''image/gif'', file_size = 5 \<rparr>"

lemma foldl_classify_step:
  "foldl classify_step (vs, n) fs
     = (vs @ filter (\<lambda>f. isJpeg f \<or> isPng f) fs,
        n + length (filter (\<lambda>f. \<not> (isJpeg f \<or> isPng f)) fs))"
  by (induction fs arbitrary: vs n) (simp_all add: classify_step_def)

lemma classify_eq:
  "classify fs = (filter (\<lambda>f. isJpeg f \<or> isPng f) fs,
                  length (filter (\<lambda>f. \<not> (isJpeg f \<or> isPng f)) fs))"
  by (simp add: classify_def foldl_classify_step)

lemma enumerate_Nil_iff: "enumerate n xs = [] \<longleftrightarrow> xs = []"
  by (cases xs) simp_all

lemma map_originalFile_new:
  "map originalFile (map (\<lambda>(k, file). new_image (g k) file) (enumerate n fs)) = fs"
  by (induction fs arbitrary: n) (simp_all add: new_image_def)

text \<open>
  C5. Ingestion accepts a file if and only if its declared type is \<open>image/jpeg\<close> or
  \<open>image/png\<close> or its lower-cased name ends with \<open>.jpg\<close>, \<open>.jpeg\<close> or \<open>.png\<close>; the
  ignored count is the number of files that fail the test (each counted once) and is
  what the message shows; the accepted files, in their order, each give one new item
  with status \<open>idle\<close>, \<open>originalSize\<close> equal to the file's size and no progress, result or
  error; \<open>onFilesAdded\<close> is called exactly when a file was accepted. Ingestion builds
  items and nothing else: no item leaves \<open>idle\<close> here.
\<close>

theorem processFiles_ingest:
  "\<exists>r. processFiles generateId (Some files) = Some r
     \<and> fst (classify files) = filter (\<lambda>f. isJpeg f \<or> isPng f) files
     \<and> snd (classify files) = length (filter (\<lambda>f. \<not> (isJpeg f \<or> isPng f)) files)
     \<and> (\<forall>f. (isJpeg f \<or> isPng f) \<longleftrightarrow>
            (file_type f \<in> {''image/jpeg'', ''image/png''}
             \<or> (\<exists>ext \<in> {''.jpg'', ''.jpeg'', ''.png''}.
                   endsWith (toLowerCase (file_name f)) ext)))
     \<and> dz_error r = (if snd (classify files) > 0
                      then Some (ignored_message (snd (classify files))) else None)
     \<and> map originalFile (added r) = filter (\<lambda>f. isJpeg f \<or> isPng f) files
     \<and> (\<forall>img \<in> set (added r).
           status img = Idle \<and> originalSize img = file_size (originalFile img)
           \<and> progress img = None \<and> webpBlob img = None \<and> error img = None)
     \<and> ((files_added r = None) \<longleftrightarrow> (\<forall>f \<in> set files. \<not> (isJpeg f \<or> isPng f)))"
proof -
  let ?ok = "\<lambda>f. isJpeg f \<or> isPng f"
  let ?new = "map (\<lambda>(k, file). new_image (generateId k) file) (enumerate 0 (filter ?ok files))"
  let ?r = "\<lparr> dz_error = (if length (filter (\<lambda>f. \<not> ?ok f) files) > 0
                 then Some (ignored_message (length (filter (\<lambda>f. \<not> ?ok f) files))) else None),
              files_added = (if length ?new > 0 then Some ?new else None) \<rparr>"
  have r: "processFiles generateId (Some files) = Some ?r"
    by (simp add: processFiles_def classify_eq enumerate_Nil_iff)
  have fields: "\<forall>img \<in> set ?new.
           status img = Idle \<and> originalSize img = file_size (originalFile img)
           \<and> progress img = None \<and> webpBlob img = None \<and> error img = None"
    by (auto simp: new_image_def)
  have add: "added ?r = ?new"
    by (simp add: added_def)
  have none: "(files_added ?r = None) \<longleftrightarrow> (\<forall>f \<in> set files. \<not> ?ok f)"
    by (simp add: filter_empty_conv enumerate_Nil_iff)
  have iff: "\<forall>f. ?ok f \<longleftrightarrow>
            (file_type f \<in> {''image/jpeg'', ''image/png''}
             \<or> (\<exists>ext \<in> {''.jpg'', ''.jpeg'', ''.png''}.
                   endsWith (toLowerCase (file_name f)) ext))"
    by (auto simp: isJpeg_def isPng_def)
  show ?thesis
    apply (rule exI [of _ ?r])
    apply (intro conjI)
    subgoal by (rule r)
    subgoal by (simp add: classify_eq)
    subgoal by (simp add: classify_eq)
    subgoal by (rule iff)
    subgoal by (simp add: classify_eq)
    subgoal by (simp only: add map_originalFile_new)
    subgoal using fields by (simp only: add)
    subgoal by (rule none)
    done
qed

theorem processFiles_ingest_witness:
  "\<exists>r. processFiles show_nat (Some [memo, shot, anim]) = Some r
     \<and> map originalFile (added r) = [shot]
     \<and> map status (added r) = [Idle]
     \<and> map originalSize (added r) = [7]
     \<and> dz_error r = Some ''2 files ignored. Only JPG and PNG files are supported.''"
proof -
  have ok: "filter (\<lambda>f. isJpeg f \<or> isPng f) [memo, shot, anim] = [shot]"
    by (simp add: isJpeg_def isPng_def memo_def shot_def anim_def endsWith_def toLowerCase_def
        toLowerCase_char_def)
  have bad: "length (filter (\<lambda>f. \<not> (isJpeg f \<or> isPng f)) [memo, shot, anim]) = 2"
    by (simp add: isJpeg_def isPng_def memo_def shot_def anim_def endsWith_def toLowerCase_def
        toLowerCase_char_def)
  have msg: "ignored_message 2 = ''2 files ignored. Only JPG and PNG files are supported.''"
    by (simp add: ignored_message_def show_nat.simps digit_def)
  from processFiles_ingest [of show_nat "[memo, shot, anim]"]
  obtain r where r: "processFiles show_nat (Some [memo, shot, anim]) = Some r"
    and cnt: "snd (classify [memo, shot, anim])
                = length (filter (\<lambda>f. \<not> (isJpeg f \<or> isPng f)) [memo, shot, anim])"
    and err: "dz_error r = (if snd (classify [memo, shot, anim]) > 0
                      then Some (ignored_message (snd (classify [memo, shot, anim]))) else None)"
    and files: "map originalFile (added r)
                  = filter (\<lambda>f. isJpeg f \<or> isPng f) [memo, shot, anim]"
    and fields: "\<forall>img \<in> set (added r).
           status img = Idle \<and> originalSize img = file_size (originalFile img)
           \<and> progress img = None \<and> webpBlob img = None \<and> error img = None"
    by blast
  from files ok obtain x where x: "added r = [x]" "originalFile x = shot"
    by (auto simp: map_eq_Cons_conv)
  with fields have "status x = Idle" "originalSize x = 7"
    by (simp_all add: shot_def)
  moreover have c2: "snd (classify [memo, shot, anim]) = 2"
    using cnt bad by (simp only:)
  have "dz_error r = Some ''2 files ignored. Only JPG and PNG files are supported.''"
    unfolding err c2 msg by simp
  ultimately show ?thesis
    using r x by auto
qed

section \<open>Export (App.tsx, handleDownloadAll)\<close>

text \<open>
  \<open>name.replace(/\\.[^/.]+$/, "")\<close>: the pattern matches a dot followed, up to the end of
  the name, by one or more characters none of which is a slash or a dot. Only the last dot
  of the name can start such a match, so the name loses its last dot and what follows it
  when that rest is non-empty and free of slashes, and is unchanged otherwise.
\<close>

definition strip_extension :: "string \<Rightarrow> string" where
  "strip_extension name =
     (let ext = takeWhile (\<lambda>c. c \<noteq> CHR ''.'') (rev name);
          rest = dropWhile (\<lambda>c. c \<noteq> CHR ''.'') (rev name)
      in if rest \<noteq> [] \<and> ext \<noteq> [] \<and> CHR ''/'' \<notin> set ext then rev (tl rest) else name)"

lemma strip_extension_match:
  assumes "ext \<noteq> []" "\<forall>c \<in> set ext. c \<noteq> CHR ''/'' \<and> c \<noteq> CHR ''.''"
  shows "strip_extension (pre @ ''.'' @ ext) = pre"
proof -
  have "takeWhile (\<lambda>c. c \<noteq> CHR ''.'') (rev ext @ CHR ''.'' # rev pre) = rev ext"
    using assms by (simp add: takeWhile_append)
  moreover have "dropWhile (\<lambda>c. c \<noteq> CHR ''.'') (rev ext @ CHR ''.'' # rev pre)
      = CHR ''.'' # rev pre"
    using assms by (simp add: dropWhile_append)
  ultimately show ?thesis
    using assms by (auto simp: strip_extension_def)
qed

lemma strip_extension_no_match:
  assumes "\<not> (\<exists>pre ext. name = pre @ ''.'' @ ext \<and> ext \<noteq> []
              \<and> (\<forall>c \<in> set ext. c \<noteq> CHR ''/'' \<and> c \<noteq> CHR ''.''))"
  shows "strip_extension name = name"
proof -
  let ?ext = "takeWhile (\<lambda>c. c \<noteq> CHR ''.'') (rev name)"
  let ?rest = "dropWhile (\<lambda>c. c \<noteq> CHR ''.'') (rev name)"
  have "\<not> (?rest \<noteq> [] \<and> ?ext \<noteq> [] \<and> CHR ''/'' \<notin> set ?ext)"
  proof
    assume a: "?rest \<noteq> [] \<and> ?ext \<noteq> [] \<and> CHR ''/'' \<notin> set ?ext"
    then have hd: "hd ?rest = CHR ''.''"
      using hd_dropWhile [of "\<lambda>c. c \<noteq> CHR ''.''" "rev name"] by simp
    have "rev name = ?ext @ ?rest" by simp
    then have "rev name = ?ext @ CHR ''.'' # tl ?rest"
      using a hd by (metis list.collapse)
    then have "name = rev (tl ?rest) @ ''.'' @ rev ?ext"
      by (metis rev_rev_ident rev_append rev.simps(2) append_assoc append_Cons append_Nil)
    moreover have "rev ?ext \<noteq> []" using a by simp
    moreover have "\<forall>c \<in> set (rev ?ext). c \<noteq> CHR ''/'' \<and> c \<noteq> CHR ''.''"
      using a by (auto dest: set_takeWhileD)
    ultimately show False using assms by blast
  qed
  then show ?thesis
    by (simp only: strip_extension_def Let_def if_False)
qed

definition candidate :: "string \<Rightarrow> nat \<Rightarrow> string" where
  "candidate baseName counter = baseName @ ''_'' @ show_nat counter @ ''.webp''"

lemma digit_inj: "a < 10 \<Longrightarrow> b < 10 \<Longrightarrow> digit a = digit b \<Longrightarrow> a = b"
  by (auto simp: digit_def less_Suc_eq numeral_eq_Suc)

lemma length_show_nat: "n \<ge> 10 \<Longrightarrow> length (show_nat n) \<ge> 2"
  by (subst show_nat.simps, subst show_nat.simps) auto

lemma show_nat_inj: "show_nat n = show_nat m \<Longrightarrow> n = m"
proof (induction n arbitrary: m rule: show_nat.induct)
  case (1 n)
  show ?case
  proof (cases "n < 10")
    case True
    then have n: "show_nat n = [digit n]" by (simp add: show_nat.simps)
    show ?thesis
    proof (cases "m < 10")
      case True
      then have "show_nat m = [digit m]" by (simp add: show_nat.simps)
      with n "1.prems" \<open>n < 10\<close> True show ?thesis by (simp add: digit_inj)
    next
      case False
      then have "length (show_nat m) \<ge> 2" by (simp add: length_show_nat)
      with n "1.prems" show ?thesis by simp
    qed
  next
    case False
    then have n: "show_nat n = show_nat (n div 10) @ [digit (n mod 10)]"
      by (subst show_nat.simps) simp
    show ?thesis
    proof (cases "m < 10")
      case True
      then have "show_nat m = [digit m]" by (simp add: show_nat.simps)
      moreover from False have "length (show_nat n) \<ge> 2" by (simp add: length_show_nat)
      ultimately show ?thesis using "1.prems" by simp
    next
      case m: False
      then have "show_nat m = show_nat (m div 10) @ [digit (m mod 10)]"
        by (subst show_nat.simps) simp
      with n "1.prems" have a: "show_nat (n div 10) = show_nat (m div 10)"
        and b: "digit (n mod 10) = digit (m mod 10)" by simp_all
      from "1.IH" [OF False a] have "n div 10 = m div 10" .
      moreover from b have "n mod 10 = m mod 10" by (simp add: digit_inj)
      ultimately show ?thesis by (metis div_mult_mod_eq)
    qed
  qed
qed

lemma candidate_inj: "candidate b j = candidate b k \<Longrightarrow> j = k"
  by (simp add: candidate_def show_nat_inj)

lemma length_filter_less:
  "x \<in> set xs \<Longrightarrow> Q x \<Longrightarrow> \<not> P x \<Longrightarrow> (\<And>y. P y \<Longrightarrow> Q y)
     \<Longrightarrow> length (filter P xs) < length (filter Q xs)"
proof (induction xs)
  case Nil
  then show ?case by simp
next
  case (Cons a xs)
  have le: "length (filter P xs) \<le> length (filter Q xs)"
    using Cons.prems(4) by (induction xs) auto
  show ?case
  proof (cases "x = a")
    case True
    with Cons.prems le show ?thesis by simp
  next
    case False
    with Cons have "length (filter P xs) < length (filter Q xs)" by simp
    with Cons.prems(4) show ?thesis by auto
  qed
qed

function unique_name :: "string list \<Rightarrow> string \<Rightarrow> string \<Rightarrow> nat \<Rightarrow> string" where
  "unique_name usedNames baseName fileName counter =
     (if fileName \<in> set usedNames
      then unique_name usedNames baseName (candidate baseName counter) (counter + 1)
      else fileName)"
  by pat_completeness auto
termination
proof (relation "measure (\<lambda>(usedNames, baseName, fileName, counter).
         length (filter (\<lambda>n. \<exists>k \<ge> counter. n = candidate baseName k) usedNames)
         + (if fileName \<in> set usedNames then 1 else 0))")
  show "wf (measure (\<lambda>(usedNames, baseName, fileName, counter).
         length (filter (\<lambda>n. \<exists>k \<ge> counter. n = candidate baseName k) usedNames)
         + (if fileName \<in> set usedNames then 1 else 0)))"
    by simp
next
  fix usedNames :: "string list" and baseName fileName :: string and counter :: nat
  assume "fileName \<in> set usedNames"
  let ?P = "\<lambda>n. \<exists>k \<ge> counter + 1. n = candidate baseName k"
  let ?Q = "\<lambda>n. \<exists>k \<ge> counter. n = candidate baseName k"
  have imp: "\<And>y. ?P y \<Longrightarrow> ?Q y"
  proof -
    fix y assume "?P y"
    then obtain k where "k \<ge> counter + 1" "y = candidate baseName k" by blast
    then show "?Q y" by (intro exI [of _ k]) simp
  qed
  have "length (filter ?P usedNames) + (if candidate baseName counter \<in> set usedNames then 1 else 0)
          < length (filter ?Q usedNames) + 1"
  proof (cases "candidate baseName counter \<in> set usedNames")
    case True
    have "\<not> ?P (candidate baseName counter)"
      by (auto dest: candidate_inj)
    moreover have "?Q (candidate baseName counter)"
      by (rule exI [of _ counter]) simp
    ultimately have "length (filter ?P usedNames) < length (filter ?Q usedNames)"
      using True imp by (rule_tac length_filter_less [where x = "candidate baseName counter"]) auto
    then show ?thesis by simp
  next
    case False
    have "length (filter ?P usedNames) \<le> length (filter ?Q usedNames)"
      using imp by (induction usedNames) auto
    with False show ?thesis by simp
  qed
  with \<open>fileName \<in> set usedNames\<close>
  show "((usedNames, baseName, candidate baseName counter, counter + 1),
         (usedNames, baseName, fileName, counter))
        \<in> measure (\<lambda>(usedNames, baseName, fileName, counter).
         length (filter (\<lambda>n. \<exists>k \<ge> counter. n = candidate baseName k) usedNames)
         + (if fileName \<in> set usedNames then 1 else 0))"
    by simp
qed

declare unique_name.simps [simp del]

lemma unique_name_spec:
  "unique_name used b fn c \<notin> set used
   \<and> (if fn \<notin> set used then unique_name used b fn c = fn
      else \<exists>j \<ge> c. unique_name used b fn c = candidate b j
             \<and> (\<forall>i. c \<le> i \<and> i < j \<longrightarrow> candidate b i \<in> set used))"
proof (induction used b fn c rule: unique_name.induct)
  case (1 used b fn c)
  show ?case
  proof (cases "fn \<in> set used")
    case False
    then show ?thesis by (simp add: unique_name.simps)
  next
    case True
    let ?r = "unique_name used b (candidate b c) (c + 1)"
    have r: "unique_name used b fn c = ?r"
      using True by (subst unique_name.simps) simp
    note ih = "1.IH" [OF True]
    have fresh: "?r \<notin> set used"
      using ih by (rule conjunct1)
    have shape: "if candidate b c \<notin> set used then ?r = candidate b c
        else \<exists>j \<ge> c + 1. ?r = candidate b j
               \<and> (\<forall>i. c + 1 \<le> i \<and> i < j \<longrightarrow> candidate b i \<in> set used)"
      using ih by (rule conjunct2)
    have "\<exists>j \<ge> c. ?r = candidate b j \<and> (\<forall>i. c \<le> i \<and> i < j \<longrightarrow> candidate b i \<in> set used)"
    proof (cases "candidate b c \<in> set used")
      case False
      with shape have "?r = candidate b c" by simp
      then show ?thesis by (intro exI [of _ c]) auto
    next
      case used: True
      with shape obtain j where j: "j \<ge> c + 1" "?r = candidate b j"
        "\<forall>i. c + 1 \<le> i \<and> i < j \<longrightarrow> candidate b i \<in> set used"
        by auto
      have "\<forall>i. c \<le> i \<and> i < j \<longrightarrow> candidate b i \<in> set used"
      proof (intro allI impI)
        fix i assume i: "c \<le> i \<and> i < j"
        show "candidate b i \<in> set used"
        proof (cases "i = c")
          case True
          with used show ?thesis by simp
        next
          case False
          with i have "c + 1 \<le> i \<and> i < j" by simp
          with j(3) show ?thesis by blast
        qed
      qed
      with j show ?thesis by (intro exI [of _ j]) simp
    qed
    with fresh True show ?thesis by (simp only: r if_False not_not) simp
  qed
qed

text \<open>
  JSZip is a library outside the repository. An archive is modelled as its file entries,
  name and data, in the order of first insertion; \<open>zip.file(name, data)\<close> replaces the
  entry of that name when there is one and appends otherwise. The data is
  \<open>img.webpBlob\<close> as the item holds it (the cast \<open>as Blob\<close> changes nothing at run
  time). \<open>usedNames\<close> is the list of the names added so far, and the counter is a natural
  number.
\<close>

type_synonym archive = "(string \<times> blob option) list"

definition add_entry :: "string list \<times> archive \<Rightarrow> ProcessedImage \<Rightarrow> string list \<times> archive" where
  "add_entry acc img =
     (case acc of (usedNames, jszip) \<Rightarrow>
        let baseName = strip_extension (file_name (originalFile img));
            fileName = unique_name usedNames baseName (baseName @ ''.webp'') 1
        in (List.insert fileName usedNames, AList.update fileName (webpBlob img) jszip))"

definition export_entries :: "ProcessedImage list \<Rightarrow> archive" where
  "export_entries completedImages = snd (foldl add_entry ([], []) completedImages)"

text \<open>
  The surroundings of one export: the clock, whether \<open>generateAsync\<close> yields the archive,
  and whether the hand-over to the download link goes through. The state the export can
  touch: the item list, the downloads triggered and the notices shown so far.
\<close>

record export_env =
  getTime :: nat
  generateAsync_ok :: bool
  handoff_ok :: bool

record app =
  images :: "ProcessedImage list"
  downloads :: "(string \<times> archive) list"
  alerts :: "string list"

definition handleDownloadAll :: "export_env \<Rightarrow> app \<Rightarrow> app" where
  "handleDownloadAll env st =
     (let currentImages = images st;
          completedImages =
            filter (\<lambda>img. status img = Completed \<and> webpBlob img \<noteq> None) currentImages
      in if length completedImages = 0 then st
         else if generateAsync_ok env \<and> handoff_ok env
         then st\<lparr> downloads := downloads st
                @ [(''LocalWebP_converted_'' @ show_nat (getTime env) @ ''.zip'',
                    export_entries completedImages)] \<rparr>
         else st\<lparr> alerts := alerts st
                @ [''Failed to create zip file. Please try downloading images individually.''] \<rparr>)"

text \<open>Two states and two surroundings for the examples.\<close>

definition two_photos :: app where
  "two_photos = \<lparr> images = [photo_done, photo_failed, photo_done\<lparr> img_id := ''c'' \<rparr>],
     downloads = [], alerts = [] \<rparr>"

definition none_done :: app where
  "none_done = \<lparr> images = [photo, photo_failed], downloads = [], alerts = [] \<rparr>"

definition env_ok :: export_env where
  "env_ok = \<lparr> getTime = 5, generateAsync_ok = True, handoff_ok = True \<rparr>"

definition env_bad :: export_env where
  "env_bad = \<lparr> getTime = 5, generateAsync_ok = False, handoff_ok = True \<rparr>"

lemma update_fresh: "k \<notin> fst ` set xs \<Longrightarrow> AList.update k v xs = xs @ [(k, v)]"
  by (induction xs) auto

lemma add_entry_snoc:
  assumes "set u = fst ` set a"
  shows "add_entry (u, a) x
     = (List.insert (unique_name u (strip_extension (file_name (originalFile x)))
                      (strip_extension (file_name (originalFile x)) @ ''.webp'') 1) u,
        a @ [(unique_name u (strip_extension (file_name (originalFile x)))
                      (strip_extension (file_name (originalFile x)) @ ''.webp'') 1,
              webpBlob x)])"
proof -
  let ?b = "strip_extension (file_name (originalFile x))"
  have "unique_name u ?b (?b @ ''.webp'') 1 \<notin> set u"
    using unique_name_spec [of u ?b "?b @ ''.webp''" 1] by blast
  with assms have "unique_name u ?b (?b @ ''.webp'') 1 \<notin> fst ` set a" by simp
  then show ?thesis
    by (simp add: add_entry_def Let_def update_fresh)
qed

lemma foldl_add_entry_inv:
  "foldl add_entry ([], []) cs = (u, a) \<Longrightarrow>
     set u = fst ` set a \<and> distinct (map fst a) \<and> length a = length cs
     \<and> map snd a = map webpBlob cs"
proof (induction cs arbitrary: u a rule: rev_induct)
  case Nil
  then show ?case by simp
next
  case (snoc x xs)
  obtain u0 a0 where e: "foldl add_entry ([], []) xs = (u0, a0)"
    by (cases "foldl add_entry ([], []) xs")
  from snoc.IH [OF e] have inv: "set u0 = fst ` set a0" "distinct (map fst a0)"
    "length a0 = length xs" "map snd a0 = map webpBlob xs" by simp_all
  let ?b = "strip_extension (file_name (originalFile x))"
  let ?n = "unique_name u0 ?b (?b @ ''.webp'') 1"
  have fresh: "?n \<notin> set u0"
    using unique_name_spec [of u0 ?b "?b @ ''.webp''" 1] by blast
  from snoc.prems e have "add_entry (u0, a0) x = (u, a)" by simp
  with add_entry_snoc [OF inv(1), of x] have u: "u = List.insert ?n u0"
    and a: "a = a0 @ [(?n, webpBlob x)]" by simp_all
  show ?case
    using inv fresh by (auto simp: u a)
qed

lemma export_entries_snoc:
  "\<exists>u. set u = fst ` set (export_entries xs)
     \<and> export_entries (xs @ [x])
        = export_entries xs
          @ [(unique_name u (strip_extension (file_name (originalFile x)))
                (strip_extension (file_name (originalFile x)) @ ''.webp'') 1, webpBlob x)]"
proof -
  obtain u0 a0 where e: "foldl add_entry ([], []) xs = (u0, a0)"
    by (cases "foldl add_entry ([], []) xs")
  from foldl_add_entry_inv [OF e] have inv: "set u0 = fst ` set a0" by simp
  show ?thesis
    using e inv add_entry_snoc [OF inv, of x]
    by (intro exI [of _ u0]) (simp add: export_entries_def)
qed

lemma length_export_entries: "length (export_entries cs) = length cs"
  using foldl_add_entry_inv [of cs "fst (foldl add_entry ([], []) cs)" "export_entries cs"]
  by (simp add: export_entries_def)

lemma take_export_entries:
  "k \<le> length cs \<Longrightarrow> take k (export_entries cs) = export_entries (take k cs)"
proof (induction cs rule: rev_induct)
  case Nil
  then show ?case by (simp add: export_entries_def)
next
  case (snoc x xs)
  from export_entries_snoc [of xs x] obtain e where
    e: "export_entries (xs @ [x]) = export_entries xs @ [e]" by blast
  show ?case
  proof (cases "k \<le> length xs")
    case True
    with snoc.IH e show ?thesis by (simp add: length_export_entries)
  next
    case False
    with snoc.prems have "k = length (xs @ [x])" by simp
    then show ?thesis by (simp add: length_export_entries)
  qed
qed

lemma export_entry_at:
  assumes "k < length cs"
  shows "\<exists>u. set u = set (take k (map fst (export_entries cs)))
     \<and> export_entries cs ! k
        = (unique_name u (strip_extension (file_name (originalFile (cs ! k))))
             (strip_extension (file_name (originalFile (cs ! k))) @ ''.webp'') 1,
           webpBlob (cs ! k))"
proof -
  let ?b = "strip_extension (file_name (originalFile (cs ! k)))"
  from export_entries_snoc [of "take k cs" "cs ! k"] obtain u where
    u: "set u = fst ` set (export_entries (take k cs))"
    and e: "export_entries (take k cs @ [cs ! k])
       = export_entries (take k cs) @ [(unique_name u ?b (?b @ ''.webp'') 1, webpBlob (cs ! k))]"
    by blast
  from assms have tk: "export_entries (take k cs) = take k (export_entries cs)"
    by (simp add: take_export_entries)
  from assms have "take (Suc k) (export_entries cs) = export_entries (take k cs @ [cs ! k])"
    by (simp add: take_export_entries take_Suc_conv_app_nth)
  with e tk have "take (Suc k) (export_entries cs)
      = take k (export_entries cs) @ [(unique_name u ?b (?b @ ''.webp'') 1, webpBlob (cs ! k))]"
    by simp
  moreover from assms have "take (Suc k) (export_entries cs)
      = take k (export_entries cs) @ [export_entries cs ! k]"
    by (simp add: take_Suc_conv_app_nth length_export_entries)
  ultimately have "export_entries cs ! k = (unique_name u ?b (?b @ ''.webp'') 1, webpBlob (cs ! k))"
    by simp
  moreover from u tk have "set u = set (take k (map fst (export_entries cs)))"
    by (simp add: take_map)
  ultimately show ?thesis by blast
qed

lemma distinct_export_entries: "distinct (map fst (export_entries cs))"
  using foldl_add_entry_inv [of cs "fst (foldl add_entry ([], []) cs)" "export_entries cs"]
  by (simp add: export_entries_def)

text \<open>
  C6. When at least one item is completed and the archive is built and handed over, the
  export downloads one archive with one entry per completed item, in batch order. The
  entry of an item carries its blob; its name is the file name without its extension
  followed by \<open>.webp\<close> when no earlier entry has that name, and otherwise the first of
  \<open>base_1.webp\<close>, \<open>base_2.webp\<close>, ... that no earlier entry has. No two entries share a
  name.
\<close>

theorem export_names_unique:
  assumes "cs = filter (\<lambda>img. status img = Completed \<and> webpBlob img \<noteq> None) (images st)"
    and "cs \<noteq> []" and "generateAsync_ok env" and "handoff_ok env"
  shows "downloads (handleDownloadAll env st)
       = downloads st @ [(''LocalWebP_converted_'' @ show_nat (getTime env) @ ''.zip'',
                          export_entries cs)]
     \<and> length (export_entries cs) = length cs
     \<and> distinct (map fst (export_entries cs))
     \<and> (\<forall>k < length cs.
          snd (export_entries cs ! k) = webpBlob (cs ! k)
          \<and> fst (export_entries cs ! k) \<notin> set (take k (map fst (export_entries cs)))
          \<and> (if strip_extension (file_name (originalFile (cs ! k))) @ ''.webp''
                  \<notin> set (take k (map fst (export_entries cs)))
              then fst (export_entries cs ! k)
                     = strip_extension (file_name (originalFile (cs ! k))) @ ''.webp''
              else \<exists>j \<ge> 1.
                     fst (export_entries cs ! k)
                       = strip_extension (file_name (originalFile (cs ! k)))
                           @ ''_'' @ show_nat j @ ''.webp''
                     \<and> (\<forall>i. 1 \<le> i \<and> i < j \<longrightarrow>
                           strip_extension (file_name (originalFile (cs ! k)))
                             @ ''_'' @ show_nat i @ ''.webp''
                           \<in> set (take k (map fst (export_entries cs))))))
     \<and> (\<forall>pre ext. ext \<noteq> [] \<and> (\<forall>c \<in> set ext. c \<noteq> CHR ''/'' \<and> c \<noteq> CHR ''.'')
           \<longrightarrow> strip_extension (pre @ ''.'' @ ext) = pre)"
proof -
  have dl: "downloads (handleDownloadAll env st)
       = downloads st @ [(''LocalWebP_converted_'' @ show_nat (getTime env) @ ''.zip'',
                          export_entries cs)]"
    using assms by (simp add: handleDownloadAll_def Let_def)
  have each: "\<forall>k < length cs.
          snd (export_entries cs ! k) = webpBlob (cs ! k)
          \<and> fst (export_entries cs ! k) \<notin> set (take k (map fst (export_entries cs)))
          \<and> (if strip_extension (file_name (originalFile (cs ! k))) @ ''.webp''
                  \<notin> set (take k (map fst (export_entries cs)))
              then fst (export_entries cs ! k)
                     = strip_extension (file_name (originalFile (cs ! k))) @ ''.webp''
              else \<exists>j \<ge> 1.
                     fst (export_entries cs ! k)
                       = strip_extension (file_name (originalFile (cs ! k)))
                           @ ''_'' @ show_nat j @ ''.webp''
                     \<and> (\<forall>i. 1 \<le> i \<and> i < j \<longrightarrow>
                           strip_extension (file_name (originalFile (cs ! k)))
                             @ ''_'' @ show_nat i @ ''.webp''
                           \<in> set (take k (map fst (export_entries cs)))))"
  proof (intro allI impI)
    fix k assume k: "k < length cs"
    let ?b = "strip_extension (file_name (originalFile (cs ! k)))"
    from export_entry_at [OF k] obtain u where
      u: "set u = set (take k (map fst (export_entries cs)))"
      and e: "export_entries cs ! k = (unique_name u ?b (?b @ ''.webp'') 1, webpBlob (cs ! k))"
      by blast
    from e have n: "fst (export_entries cs ! k) = unique_name u ?b (?b @ ''.webp'') 1"
      and sn: "snd (export_entries cs ! k) = webpBlob (cs ! k)" by simp_all
    note spec = unique_name_spec [of u ?b "?b @ ''.webp''" 1]
    have s1: "unique_name u ?b (?b @ ''.webp'') 1 \<notin> set u"
      using spec by (rule conjunct1)
    have s2: "if ?b @ ''.webp'' \<notin> set u
        then unique_name u ?b (?b @ ''.webp'') 1 = ?b @ ''.webp''
        else \<exists>j \<ge> 1. unique_name u ?b (?b @ ''.webp'') 1 = candidate ?b j
               \<and> (\<forall>i. 1 \<le> i \<and> i < j \<longrightarrow> candidate ?b i \<in> set u)"
      using spec by (rule conjunct2)
    show "snd (export_entries cs ! k) = webpBlob (cs ! k)
          \<and> fst (export_entries cs ! k) \<notin> set (take k (map fst (export_entries cs)))
          \<and> (if ?b @ ''.webp'' \<notin> set (take k (map fst (export_entries cs)))
              then fst (export_entries cs ! k) = ?b @ ''.webp''
              else \<exists>j \<ge> 1.
                     fst (export_entries cs ! k) = ?b @ ''_'' @ show_nat j @ ''.webp''
                     \<and> (\<forall>i. 1 \<le> i \<and> i < j \<longrightarrow>
                           ?b @ ''_'' @ show_nat i @ ''.webp''
                           \<in> set (take k (map fst (export_entries cs)))))"
      unfolding n sn u [symmetric]
      by (rule conjI [OF refl conjI [OF s1 s2 [unfolded candidate_def]]])
  qed
  have strip: "\<forall>pre ext. ext \<noteq> [] \<and> (\<forall>c \<in> set ext. c \<noteq> CHR ''/'' \<and> c \<noteq> CHR ''.'')
           \<longrightarrow> strip_extension (pre @ ''.'' @ ext) = pre"
    using strip_extension_match by blast
  show ?thesis
    by (rule conjI [OF dl conjI [OF length_export_entries
          conjI [OF distinct_export_entries conjI [OF each strip]]]])
qed

theorem export_names_unique_witness:
  "downloads (handleDownloadAll env_ok two_photos)
     = [(''LocalWebP_converted_5.zip'',
         [(''photo.webp'', Some [1, 2]), (''photo_1.webp'', Some [1, 2])])]"
proof -
  have cs: "[photo_done, photo_done\<lparr> img_id := ''c'' \<rparr>]
      = filter (\<lambda>img. status img = Completed \<and> webpBlob img \<noteq> None) (images two_photos)"
    by (simp add: two_photos_def photo_done_def photo_failed_def)
  have ne: "[photo_done, photo_done\<lparr> img_id := ''c'' \<rparr>] \<noteq> []" by simp
  have ok: "generateAsync_ok env_ok" "handoff_ok env_ok" by (simp_all add: env_ok_def)
  have ee: "export_entries [photo_done, photo_done\<lparr> img_id := ''c'' \<rparr>]
      = [(''photo.webp'', Some [1, 2]), (''photo_1.webp'', Some [1, 2])]"
    by code_simp
  have nm: "''LocalWebP_converted_'' @ show_nat (getTime env_ok) @ ''.zip''
      = ''LocalWebP_converted_5.zip''"
    by (simp add: env_ok_def show_nat.simps digit_def)
  have "downloads (handleDownloadAll env_ok two_photos)
       = downloads two_photos @ [(''LocalWebP_converted_'' @ show_nat (getTime env_ok) @ ''.zip'',
            export_entries [photo_done, photo_done\<lparr> img_id := ''c'' \<rparr>])]"
    using export_names_unique [OF cs ne ok] by (rule conjunct1)
  then show ?thesis
    unfolding ee nm by (simp add: two_photos_def)
qed

text \<open>
  C7. The export never changes the item list. With no completed item it changes nothing
  at all (no archive, no notice). When building the archive or handing it over fails it
  adds one notice and no download.
\<close>

theorem handleDownloadAll_frame:
  "images (handleDownloadAll env st) = images st
   \<and> ((\<forall>img \<in> set (images st). status img \<noteq> Completed) \<longrightarrow> handleDownloadAll env st = st)
   \<and> ((\<forall>img \<in> set (images st). \<not> (status img = Completed \<and> webpBlob img \<noteq> None))
        \<longrightarrow> handleDownloadAll env st = st)
   \<and> ((\<exists>img \<in> set (images st). status img = Completed \<and> webpBlob img \<noteq> None)
        \<and> \<not> (generateAsync_ok env \<and> handoff_ok env)
        \<longrightarrow> downloads (handleDownloadAll env st) = downloads st
            \<and> alerts (handleDownloadAll env st)
                = alerts st
                  @ [''Failed to create zip file. Please try downloading images individually.''])"
proof -
  have a: "images (handleDownloadAll env st) = images st"
    by (simp add: handleDownloadAll_def Let_def)
  have b: "(\<forall>img \<in> set (images st). \<not> (status img = Completed \<and> webpBlob img \<noteq> None))
        \<longrightarrow> handleDownloadAll env st = st"
    by (simp add: handleDownloadAll_def Let_def filter_empty_conv)
  then have c: "(\<forall>img \<in> set (images st). status img \<noteq> Completed) \<longrightarrow> handleDownloadAll env st = st"
    by blast
  have d: "(\<exists>img \<in> set (images st). status img = Completed \<and> webpBlob img \<noteq> None)
        \<and> \<not> (generateAsync_ok env \<and> handoff_ok env)
        \<longrightarrow> downloads (handleDownloadAll env st) = downloads st
            \<and> alerts (handleDownloadAll env st)
                = alerts st
                  @ [''Failed to create zip file. Please try downloading images individually.'']"
    by (auto simp: handleDownloadAll_def Let_def filter_empty_conv)
  from a b c d show ?thesis by blast
qed

theorem handleDownloadAll_frame_witness:
  "handleDownloadAll env_ok none_done = none_done
   \<and> images (handleDownloadAll env_bad two_photos) = images two_photos
   \<and> downloads (handleDownloadAll env_bad two_photos) = []
   \<and> alerts (handleDownloadAll env_bad two_photos)
       = [''Failed to create zip file. Please try downloading images individually.'']"
proof -
  have "\<forall>img \<in> set (images none_done). status img \<noteq> Completed"
    by (simp add: none_done_def photo_def photo_failed_def)
  then have a: "handleDownloadAll env_ok none_done = none_done"
    using handleDownloadAll_frame [of env_ok none_done] by (elim conjE) simp
  have "(\<exists>img \<in> set (images two_photos). status img = Completed \<and> webpBlob img \<noteq> None)
      \<and> \<not> (generateAsync_ok env_bad \<and> handoff_ok env_bad)"
    by (simp add: two_photos_def photo_done_def env_bad_def)
  then have b: "images (handleDownloadAll env_bad two_photos) = images two_photos
     \<and> downloads (handleDownloadAll env_bad two_photos) = downloads two_photos
     \<and> alerts (handleDownloadAll env_bad two_photos)
         = alerts two_photos
           @ [''Failed to create zip file. Please try downloading images individually.'']"
    using handleDownloadAll_frame [of env_bad two_photos] by (elim conjE) simp
  have "downloads two_photos = []" "alerts two_photos = []"
    by (simp_all add: two_photos_def)
  with a b show ?thesis by simp
qed

section \<open>The conversion engine (convertToWebP)\<close>

text \<open>
  One call of \<open>convertToWebP\<close> registers callbacks and the browser then drives them. The
  browser's side of one call is a record: what \<open>readAsDataURL\<close> does with the file (the
  progress events it fires, then \<open>None\<close> for \<open>onerror\<close> or the \<open>result\<close> delivered to
  \<open>onload\<close>), whether an image with the given source loads, whether the canvas yields a
  2D context, what \<open>toBlob\<close> passes to its callback at the given quality, and the URL
  \<open>createObjectURL\<close> returns. The model returns the values passed to \<open>onProgress\<close>, in
  order, and how the promise settles (\<open>Inl\<close> the message of the rejection).

  The default \<open>duration = 3000\<close> applies only when the argument is left out, which
  \<open>convert\<close> never does; the model takes the duration as given.

  Arithmetic is exact here: the duration is an integer number of milliseconds, the byte
  counts of a progress event are natural numbers, quotients are rationals, and
  \<open>Math.round\<close> is \<open>round\<close> (halves go up in both). The one division whose divisor can be
  0 is \<open>e.loaded / e.total\<close>: it gives \<open>NaN\<close> for \<open>0 / 0\<close> and \<open>Infinity\<close> for a positive
  \<open>loaded\<close>, and multiplying by 10 and rounding leave both as they are. In the interval
  callback the quotient is only reported while \<open>updates < totalUpdates\<close>, so its divisor is
  positive.
\<close>

record ProgressEvent =
  lengthComputable :: bool
  loaded :: nat
  total :: nat

record browser =
  readAsDataURL :: "File \<Rightarrow> ProgressEvent list \<times> string option option"
  image_loads :: "string \<Rightarrow> bool"
  getContext :: bool
  toBlob :: "rat \<Rightarrow> blob option"
  createObjectURL :: "blob \<Rightarrow> string"

text \<open>
  \<open>percent\<close> of the \<open>onprogress\<close> handler: \<open>exact_percent\<close> is its value when the total is
  positive, \<open>read_percent\<close> its value in every case.
\<close>

definition exact_percent :: "ProgressEvent \<Rightarrow> int" where
  "exact_percent e = round ((of_nat (loaded e) / of_nat (total e)) * 10 :: rat)"

definition read_percent :: "ProgressEvent \<Rightarrow> jsnum" where
  "read_percent e =
     (if total e = 0 then (if loaded e = 0 then NaN else Infinity)
      else Num (exact_percent e))"

text \<open>
  The interval callback: \<open>tick_progress\<close> is \<open>totalProgress\<close> after \<open>updates++\<close>;
  \<open>timer\<close> lists what the callbacks report from a given value of \<open>updates\<close> until
  \<open>clearInterval\<close>.
\<close>

definition tick_progress :: "int \<Rightarrow> int \<Rightarrow> int" where
  "tick_progress totalUpdates updates =
     (let startProgress = 15; endProgress = 98; range = endProgress - startProgress;
          currentStepProgress = (of_int updates / of_int totalUpdates) * of_int range :: rat
      in min endProgress (round (of_int startProgress + currentStepProgress)))"

function timer :: "int \<Rightarrow> int \<Rightarrow> int list" where
  "timer totalUpdates updates =
     (if updates + 1 \<ge> totalUpdates then [99]
      else tick_progress totalUpdates (updates + 1) # timer totalUpdates (updates + 1))"
  by pat_completeness auto
termination
  by (relation "measure (\<lambda>(totalUpdates, updates). nat (totalUpdates - updates))") auto

declare timer.simps [simp del]

definition convertToWebP ::
  "browser \<Rightarrow> File \<Rightarrow> rat \<Rightarrow> int \<Rightarrow> jsnum list \<times> (string + blob)" where
  "convertToWebP br file quality duration =
     (case readAsDataURL br file of (events, outcome) \<Rightarrow>
        let reading = Num 0 # map read_percent (filter lengthComputable events)
        in (case outcome of
             None \<Rightarrow> (reading, Inl ''Failed to read file'')
           | Some result \<Rightarrow>
               (case result of
                  None \<Rightarrow> (reading @ [Num 12], Inl ''FileReader result is empty'')
                | Some src \<Rightarrow>
                    if src = [] then (reading @ [Num 12], Inl ''FileReader result is empty'')
                    else if \<not> image_loads br src
                    then (reading @ [Num 12], Inl ''Failed to load image'')
                    else if \<not> getContext br
                    then (reading @ [Num 12, Num 15], Inl ''Could not get canvas context'')
                    else
                      let updateInterval = 100;
                          totalUpdates = \<lceil>(of_int duration :: rat) / updateInterval\<rceil>;
                          ticking = reading @ [Num 12, Num 15] @ map Num (timer totalUpdates 0)
                      in (case toBlob br quality of
                           Some blob \<Rightarrow> (ticking @ [Num 100], Inr blob)
                         | None \<Rightarrow> (ticking, Inl ''Conversion failed'')))))"

text \<open>
  JavaScript's \<open><=\<close> on these values: every comparison with \<open>NaN\<close> is false.
\<close>

fun js_le :: "jsnum \<Rightarrow> jsnum \<Rightarrow> bool" where
  "js_le (Num a) (Num b) = (a \<le> b)"
| "js_le (Num a) Infinity = True"
| "js_le Infinity Infinity = True"
| "js_le _ _ = False"

text \<open>
  What a \<open>FileReader\<close> reports while it reads a file that is not empty: among the events
  of known length the total is one positive number, and \<open>loaded\<close> never exceeds it and
  never goes back.
\<close>

definition forward_read :: "ProgressEvent list \<Rightarrow> bool" where
  "forward_read events =
     (let known = filter lengthComputable events
      in sorted (map loaded known)
         \<and> (\<forall>e \<in> set known. 0 < total e \<and> loaded e \<le> total e)
         \<and> (\<forall>e \<in> set known. \<forall>e' \<in> set known. total e = total e'))"

text \<open>A browser in which everything succeeds, and one whose canvas yields no context.\<close>

definition chrome :: browser where
  "chrome = \<lparr> readAsDataURL = (\<lambda>file.
        ([\<lparr> lengthComputable = True, loaded = 2, total = 4 \<rparr>,
          \<lparr> lengthComputable = True, loaded = 4, total = 4 \<rparr>],
         Some (Some ''data:image/jpeg;base64,AAAA''))),
      image_loads = (\<lambda>src. True), getContext = True,
      toBlob = (\<lambda>quality. Some [1, 2]), createObjectURL = (\<lambda>blob. ''blob:0'') \<rparr>"

definition no_canvas :: browser where
  "no_canvas = chrome\<lparr> getContext := False \<rparr>"

text \<open>
  A file of zero bytes with a PNG name and type, and a browser reading it: one progress
  event of known length with nothing loaded of nothing, then a data URL with no data,
  which does not load as an image.
\<close>

definition empty_png :: File where
  "empty_png = \<lparr> file_name = ''e.png'', file_type = ''image/png'', file_size = 0 \<rparr>"

definition chrome_empty :: browser where
  "chrome_empty = \<lparr> readAsDataURL = (\<lambda>file.
        ([\<lparr> lengthComputable = True, loaded = 0, total = 0 \<rparr>],
         Some (Some ''data:image/png;base64,''))),
      image_loads = (\<lambda>src. False), getContext = True,
      toBlob = (\<lambda>quality. None), createObjectURL = (\<lambda>blob. ''blob:0'') \<rparr>"

lemma timer_closed:
  "0 \<le> u \<Longrightarrow> timer T u = map (tick_progress T) [u + 1 .. T - 1] @ [99]"
proof (induction T u rule: timer.induct)
  case (1 T u)
  show ?case
  proof (cases "u + 1 \<ge> T")
    case True
    then show ?thesis by (subst timer.simps) simp
  next
    case False
    then have "timer T u = tick_progress T (u + 1) # timer T (u + 1)"
      by (subst timer.simps) simp
    also have "timer T (u + 1) = map (tick_progress T) [u + 1 + 1 .. T - 1] @ [99]"
      using "1.IH" [OF False] "1.prems" by simp
    also have "tick_progress T (u + 1) # (map (tick_progress T) [u + 1 + 1 .. T - 1] @ [99])
        = map (tick_progress T) [u + 1 .. T - 1] @ [99]"
      using False by (subst (2) upto.simps) simp
    finally show ?thesis .
  qed
qed

lemma tick_progress_mono:
  assumes "0 < T" "u \<le> v"
  shows "tick_progress T u \<le> tick_progress T v"
proof -
  have "(of_int u :: rat) / of_int T \<le> of_int v / of_int T"
    using assms by (simp add: divide_right_mono)
  then have "(of_int u :: rat) / of_int T * 83 \<le> of_int v / of_int T * 83"
    by (rule mult_right_mono) simp
  then have "15 + (of_int u :: rat) / of_int T * 83 \<le> 15 + of_int v / of_int T * 83"
    by (rule add_left_mono)
  then have "round (15 + of_int u / of_int T * 83 :: rat)
      \<le> round (15 + of_int v / of_int T * 83 :: rat)"
    by (rule round_mono)
  then show ?thesis
    by (simp add: tick_progress_def)
qed

lemma tick_progress_bounds:
  assumes "0 < T" "0 \<le> u"
  shows "15 \<le> tick_progress T u \<and> tick_progress T u \<le> 98"
proof -
  have "(0 :: rat) \<le> of_int u / of_int T * 83"
    using assms by simp
  then have "(15 :: rat) \<le> 15 + of_int u / of_int T * 83"
    by linarith
  then have "round (15 :: rat) \<le> round (15 + of_int u / of_int T * 83 :: rat)"
    by (rule round_mono)
  then show ?thesis
    by (simp add: tick_progress_def)
qed

text \<open>
  C1, as amended. When the file is read with a non-empty result, the image loads and a 2D
  context is obtained, the values reported are: 0, one value per progress event of known
  length, 12, 15, then \<open>min 98 (round (15 + 83 * u / T))\<close> for the ticks
  \<open>u = 1, ..., T - 1\<close> with \<open>T = ceil (duration / 100)\<close> (each between 15 and 98), then 99 on
  the last tick, then 100 if the encoder yields a blob. The promise resolves with that
  blob, or rejects with \<open>Conversion failed\<close> after 99 when there is none.
\<close>

theorem convertToWebP_checkpoints:
  assumes "readAsDataURL br file = (events, Some (Some src))" and "src \<noteq> []"
    and "image_loads br src" and "getContext br"
  shows "fst (convertToWebP br file quality duration)
       = Num 0 # map read_percent (filter lengthComputable events) @ [Num 12, Num 15]
         @ map (\<lambda>u. Num (tick_progress \<lceil>(of_int duration :: rat) / 100\<rceil> u))
             [1 .. \<lceil>(of_int duration :: rat) / 100\<rceil> - 1]
         @ [Num 99]
         @ (case toBlob br quality of Some blob \<Rightarrow> [Num 100] | None \<Rightarrow> [])
     \<and> snd (convertToWebP br file quality duration)
       = (case toBlob br quality of Some blob \<Rightarrow> Inr blob | None \<Rightarrow> Inl ''Conversion failed'')
     \<and> (\<forall>u \<in> set [1 .. \<lceil>(of_int duration :: rat) / 100\<rceil> - 1].
          tick_progress \<lceil>(of_int duration :: rat) / 100\<rceil> u
            = min 98 (round (15 + of_int u / of_int \<lceil>(of_int duration :: rat) / 100\<rceil> * 83 :: rat))
          \<and> 15 \<le> tick_progress \<lceil>(of_int duration :: rat) / 100\<rceil> u
          \<and> tick_progress \<lceil>(of_int duration :: rat) / 100\<rceil> u \<le> 98)"
proof -
  let ?T = "\<lceil>(of_int duration :: rat) / 100\<rceil>"
  have t: "timer ?T 0 = map (tick_progress ?T) [1 .. ?T - 1] @ [99]"
    using timer_closed [of 0 ?T] by simp
  have a: "fst (convertToWebP br file quality duration)
       = Num 0 # map read_percent (filter lengthComputable events) @ [Num 12, Num 15]
         @ map (\<lambda>u. Num (tick_progress ?T u)) [1 .. ?T - 1]
         @ [Num 99]
         @ (case toBlob br quality of Some blob \<Rightarrow> [Num 100] | None \<Rightarrow> [])"
    using assms by (simp add: convertToWebP_def t comp_def split: option.split)
  have b: "snd (convertToWebP br file quality duration)
       = (case toBlob br quality of Some blob \<Rightarrow> Inr blob | None \<Rightarrow> Inl ''Conversion failed'')"
    using assms by (simp add: convertToWebP_def split: option.split)
  have c: "\<forall>u \<in> set [1 .. ?T - 1].
          tick_progress ?T u = min 98 (round (15 + of_int u / of_int ?T * 83 :: rat))
          \<and> 15 \<le> tick_progress ?T u \<and> tick_progress ?T u \<le> 98"
  proof
    fix u assume "u \<in> set [1 .. ?T - 1]"
    then have "1 \<le> u \<and> u \<le> ?T - 1" by (simp only: set_upto atLeastAtMost_iff)
    then have "0 < ?T" "0 \<le> u" by linarith+
    then show "tick_progress ?T u = min 98 (round (15 + of_int u / of_int ?T * 83 :: rat))
          \<and> 15 \<le> tick_progress ?T u \<and> tick_progress ?T u \<le> 98"
      using tick_progress_bounds [of ?T u] by (simp add: tick_progress_def)
  qed
  show ?thesis
    by (rule conjI [OF a conjI [OF b c]])
qed

lemma ticks_300: "map (\<lambda>u. Num (tick_progress 3 u)) [1 .. 2] = [Num 43, Num 70]"
  by code_simp

theorem convertToWebP_checkpoints_witness:
  "fst (convertToWebP chrome (originalFile photo) (4 / 5) 300)
     = [Num 0, Num 5, Num 10, Num 12, Num 15, Num 43, Num 70, Num 99, Num 100]
   \<and> snd (convertToWebP chrome (originalFile photo) (4 / 5) 300) = Inr [1, 2]"
proof -
  have r: "readAsDataURL chrome (originalFile photo)
      = ([\<lparr> lengthComputable = True, loaded = 2, total = 4 \<rparr>,
          \<lparr> lengthComputable = True, loaded = 4, total = 4 \<rparr>],
         Some (Some ''data:image/jpeg;base64,AAAA''))"
    by (simp add: chrome_def)
  have s: "''data:image/jpeg;base64,AAAA'' \<noteq> []" by simp
  have l: "image_loads chrome ''data:image/jpeg;base64,AAAA''" by (simp add: chrome_def)
  have g: "getContext chrome" by (simp add: chrome_def)
  have T: "\<lceil>(of_int 300 :: rat) / 100\<rceil> = 3" by simp
  have b: "toBlob chrome (4 / 5) = Some [1, 2]" by (simp add: chrome_def)
  have p: "read_percent \<lparr> lengthComputable = True, loaded = 2, total = 4 \<rparr> = Num 5"
    "read_percent \<lparr> lengthComputable = True, loaded = 4, total = 4 \<rparr> = Num 10"
    by code_simp+
  note w = convertToWebP_checkpoints [OF r s l g, of "4 / 5" 300]
  have "fst (convertToWebP chrome (originalFile photo) (4 / 5) 300)
     = [Num 0, Num 5, Num 10, Num 12, Num 15, Num 43, Num 70, Num 99, Num 100]"
    using w [THEN conjunct1] unfolding T b by (simp add: ticks_300 p)
  moreover have "snd (convertToWebP chrome (originalFile photo) (4 / 5) 300) = Inr [1, 2]"
    using w [THEN conjunct2, THEN conjunct1] unfolding b by simp
  ultimately show ?thesis by simp
qed

text \<open>
  The file is read and the image loads, but the canvas yields no 2D context: the call
  rejects after 15 and never reports 99.
\<close>

theorem convertToWebP_checkpoints_counterexample:
  "readAsDataURL no_canvas (originalFile photo)
     = ([\<lparr> lengthComputable = True, loaded = 2, total = 4 \<rparr>,
         \<lparr> lengthComputable = True, loaded = 4, total = 4 \<rparr>],
        Some (Some ''data:image/jpeg;base64,AAAA''))
   \<and> image_loads no_canvas ''data:image/jpeg;base64,AAAA''
   \<and> convertToWebP no_canvas (originalFile photo) (4 / 5) 3000
       = ([Num 0, Num 5, Num 10, Num 12, Num 15], Inl ''Could not get canvas context'')
   \<and> Num 99 \<notin> set (fst (convertToWebP no_canvas (originalFile photo) (4 / 5) 3000))"
proof -
  have p: "read_percent \<lparr> lengthComputable = True, loaded = 2, total = 4 \<rparr> = Num 5"
    "read_percent \<lparr> lengthComputable = True, loaded = 4, total = 4 \<rparr> = Num 10"
    by code_simp+
  have "convertToWebP no_canvas (originalFile photo) (4 / 5) 3000
       = ([Num 0, Num 5, Num 10, Num 12, Num 15], Inl ''Could not get canvas context'')"
    using p by (simp add: convertToWebP_def no_canvas_def chrome_def)
  then show ?thesis
    by (simp add: no_canvas_def chrome_def)
qed

lemma exact_percent_bounds:
  assumes "0 < total e" "loaded e \<le> total e"
  shows "0 \<le> exact_percent e \<and> exact_percent e \<le> 10"
proof -
  have "(0 :: rat) \<le> of_nat (loaded e) / of_nat (total e) * 10" by simp
  then have lo: "round (0 :: rat) \<le> exact_percent e"
    unfolding exact_percent_def by (rule round_mono)
  have "(of_nat (loaded e) :: rat) / of_nat (total e) \<le> 1"
    using assms by simp
  then have "(of_nat (loaded e) :: rat) / of_nat (total e) * 10 \<le> 1 * 10"
    by (rule mult_right_mono) simp
  then have "(of_nat (loaded e) :: rat) / of_nat (total e) * 10 \<le> 10"
    by (simp only: mult_1)
  then have "exact_percent e \<le> round (10 :: rat)"
    unfolding exact_percent_def by (rule round_mono)
  with lo show ?thesis by simp
qed

lemma exact_percent_mono:
  assumes "loaded e \<le> loaded e'" "total e = total e'"
  shows "exact_percent e \<le> exact_percent e'"
proof -
  have "(of_nat (loaded e) :: rat) / of_nat (total e) \<le> of_nat (loaded e') / of_nat (total e')"
    using assms by (simp add: divide_right_mono)
  then have "(of_nat (loaded e) :: rat) / of_nat (total e) * 10
      \<le> of_nat (loaded e') / of_nat (total e') * 10"
    by (rule mult_right_mono) simp
  then show ?thesis
    unfolding exact_percent_def by (rule round_mono)
qed

lemma forward_read_percents:
  assumes "forward_read events"
  shows "sorted (map exact_percent (filter lengthComputable events))"
    and "\<forall>x \<in> set (map exact_percent (filter lengthComputable events)). 0 \<le> x \<and> x \<le> 10"
    and "map read_percent (filter lengthComputable events)
           = map Num (map exact_percent (filter lengthComputable events))"
proof -
  let ?known = "filter lengthComputable events"
  from assms have fr: "sorted (map loaded ?known)
         \<and> (\<forall>e \<in> set ?known. 0 < total e \<and> loaded e \<le> total e)
         \<and> (\<forall>e \<in> set ?known. \<forall>e' \<in> set ?known. total e = total e')"
    unfolding forward_read_def Let_def .
  from fr have srt: "sorted_wrt (\<lambda>a b. loaded a \<le> loaded b) ?known"
    by (simp only: sorted_map)
  from fr have bnd: "\<forall>e \<in> set ?known. 0 < total e \<and> loaded e \<le> total e"
    by (elim conjE)
  from fr have tot: "\<forall>e \<in> set ?known. \<forall>e' \<in> set ?known. total e = total e'"
    by (elim conjE)
  have "sorted_wrt (\<lambda>a b. exact_percent a \<le> exact_percent b) ?known"
    using srt
  proof (rule sorted_wrt_mono_rel [rotated])
    fix a b assume "a \<in> set ?known" "b \<in> set ?known" "loaded a \<le> loaded b"
    with tot show "exact_percent a \<le> exact_percent b"
      by (intro exact_percent_mono) blast+
  qed
  then show "sorted (map exact_percent ?known)" by (simp only: sorted_map)
  show "\<forall>x \<in> set (map exact_percent ?known). 0 \<le> x \<and> x \<le> 10"
  proof
    fix x assume "x \<in> set (map exact_percent ?known)"
    then obtain e where e: "e \<in> set ?known" "x = exact_percent e" by auto
    with bnd have "0 < total e" "loaded e \<le> total e" by blast+
    then show "0 \<le> x \<and> x \<le> 10"
      unfolding e(2) by (rule exact_percent_bounds)
  qed
  have "\<forall>e \<in> set ?known. read_percent e = Num (exact_percent e)"
  proof
    fix e assume "e \<in> set ?known"
    with bnd have "0 < total e" by blast
    then show "read_percent e = Num (exact_percent e)" by (simp add: read_percent_def)
  qed
  then show "map read_percent ?known = map Num (map exact_percent ?known)"
    by (simp only: map_map comp_def) (rule map_cong [OF refl], blast)
qed

lemma timer_sorted: "sorted (timer T 0) \<and> (\<forall>x \<in> set (timer T 0). 15 \<le> x \<and> x \<le> 99)"
proof -
  have t: "timer T 0 = map (tick_progress T) [1 .. T - 1] @ [99]"
    using timer_closed [of 0 T] by simp
  have bnd: "\<forall>u \<in> set [1 .. T - 1]. 15 \<le> tick_progress T u \<and> tick_progress T u \<le> 98"
  proof
    fix u assume "u \<in> set [1 .. T - 1]"
    then have "1 \<le> u \<and> u \<le> T - 1" by (simp only: set_upto atLeastAtMost_iff)
    then have "0 < T" "0 \<le> u" by linarith+
    then show "15 \<le> tick_progress T u \<and> tick_progress T u \<le> 98"
      by (rule tick_progress_bounds)
  qed
  have "sorted_wrt (\<lambda>a b. tick_progress T a \<le> tick_progress T b) [1 .. T - 1]"
  proof (rule sorted_wrt_mono_rel [rotated])
    show "sorted_wrt (\<le>) [1 .. T - 1]" using sorted_upto by simp
  next
    fix a b assume "a \<in> set [1 .. T - 1]" "b \<in> set [1 .. T - 1]" "a \<le> b"
    then have "1 \<le> a \<and> a \<le> T - 1" "a \<le> b" by (simp_all only: set_upto atLeastAtMost_iff)
    then have "0 < T" "a \<le> b" by linarith+
    then show "tick_progress T a \<le> tick_progress T b" by (rule tick_progress_mono)
  qed
  then have "sorted (map (tick_progress T) [1 .. T - 1])" by (simp add: sorted_map)
  with bnd show ?thesis
    unfolding t by (fastforce simp: sorted_append)
qed

lemma sorted_phases:
  assumes "sorted ps" "\<forall>x \<in> set ps. 0 \<le> x \<and> x \<le> (10 :: int)"
    and "sorted ts" "\<forall>x \<in> set ts. 15 \<le> x \<and> x \<le> 99"
  shows "sorted (0 # ps)" "sorted ((0 # ps) @ [12])" "sorted ((0 # ps) @ [12, 15])"
    "sorted ((0 # ps) @ [12, 15] @ ts)" "sorted (((0 # ps) @ [12, 15] @ ts) @ [100])"
  using assms by (fastforce simp: sorted_append)+

lemma sorted_js_le_Num: "sorted_wrt js_le (map Num xs) = sorted xs"
  by (induction xs) auto

text \<open>
  For a reader that reports as above, the values one call passes to \<open>onProgress\<close> never
  decrease in the sense of \<open><=\<close>, whatever the outcome of the call, and the first is 0.
\<close>

lemma reports_nondecreasing_for_forward_read:
  assumes "forward_read (fst (readAsDataURL br file))"
  shows "sorted_wrt js_le (fst (convertToWebP br file quality duration))
     \<and> hd (fst (convertToWebP br file quality duration)) = Num 0"
proof -
  obtain events outcome where r: "readAsDataURL br file = (events, outcome)"
    by (cases "readAsDataURL br file")
  let ?known = "filter lengthComputable events"
  let ?ps = "map exact_percent ?known"
  let ?ts = "timer \<lceil>(of_int duration :: rat) / 100\<rceil> 0"
  from assms r have fr: "forward_read events" by simp
  note ph = sorted_phases [OF forward_read_percents(1,2) [OF fr]
      timer_sorted [of "\<lceil>(of_int duration :: rat) / 100\<rceil>", THEN conjunct1]
      timer_sorted [of "\<lceil>(of_int duration :: rat) / 100\<rceil>", THEN conjunct2]]
  note m = forward_read_percents(3) [OF fr]
  have e1: "Num 0 # map read_percent ?known = map Num (0 # ?ps)"
    and e2: "(Num 0 # map read_percent ?known) @ [Num 12] = map Num ((0 # ?ps) @ [12])"
    and e3: "(Num 0 # map read_percent ?known) @ [Num 12, Num 15]
               = map Num ((0 # ?ps) @ [12, 15])"
    and e4: "(Num 0 # map read_percent ?known) @ [Num 12, Num 15] @ map Num ?ts
               = map Num ((0 # ?ps) @ [12, 15] @ ?ts)"
    and e5: "((Num 0 # map read_percent ?known) @ [Num 12, Num 15] @ map Num ?ts) @ [Num 100]
               = map Num (((0 # ?ps) @ [12, 15] @ ?ts) @ [100])"
    by (simp_all add: m)
  have s1: "sorted_wrt js_le (Num 0 # map read_percent ?known)"
    by (simp only: e1 sorted_js_le_Num ph)
  have s2: "sorted_wrt js_le ((Num 0 # map read_percent ?known) @ [Num 12])"
    by (simp only: e2 sorted_js_le_Num ph)
  have s3: "sorted_wrt js_le ((Num 0 # map read_percent ?known) @ [Num 12, Num 15])"
    by (simp only: e3 sorted_js_le_Num ph)
  have s4: "sorted_wrt js_le
      ((Num 0 # map read_percent ?known) @ [Num 12, Num 15] @ map Num ?ts)"
    by (simp only: e4 sorted_js_le_Num ph)
  have s5: "sorted_wrt js_le
      (((Num 0 # map read_percent ?known) @ [Num 12, Num 15] @ map Num ?ts) @ [Num 100])"
    by (simp only: e5 sorted_js_le_Num ph)
  have "sorted_wrt js_le (fst (convertToWebP br file quality duration))"
    using s1 s2 s3 s4 s5 r by (simp add: convertToWebP_def Let_def split: option.split)
  moreover have "hd (fst (convertToWebP br file quality duration)) = Num 0"
    using r by (simp add: convertToWebP_def Let_def split: option.split)
  ultimately show ?thesis by simp
qed

text \<open>
  C9. The values one call passes to \<open>onProgress\<close> should never decrease. They do for the
  zero-byte file above, which ingestion accepts: the handler computes
  \<open>Math.round((0 / 0) * 10)\<close> and reports \<open>NaN\<close> between the 0 of the start and the 12 of the
  load, and \<open>0 <= NaN\<close> is false. The comment on the handler gives the range of these
  reports as 0 to 10 percent; the guard \<open>e.lengthComputable\<close> does not cover a total of 0.
\<close>

theorem reports_with_NaN_for_empty_file:
  "isPng empty_png
   \<and> convertToWebP chrome_empty empty_png (4 / 5) 4000
       = ([Num 0, NaN, Num 12], Inl ''Failed to load image'')
   \<and> \<not> js_le (Num 0) NaN
   \<and> \<not> sorted_wrt js_le (fst (convertToWebP chrome_empty empty_png (4 / 5) 4000))"
proof -
  have a: "isPng empty_png"
    by (simp add: isPng_def empty_png_def)
  have b: "convertToWebP chrome_empty empty_png (4 / 5) 4000
       = ([Num 0, NaN, Num 12], Inl ''Failed to load image'')"
    by (simp add: convertToWebP_def chrome_empty_def read_percent_def)
  show ?thesis
    unfolding b using a by simp
qed

section \<open>The life of one item (ImageRow, convert)\<close>

text \<open>
  \<open>convert\<close> of \<open>ImageRow\<close> calls \<open>onUpdate(item.id, ...)\<close> once when it starts, once for
  every value the engine reports, and once when the promise settles. The model lists these
  updates in the order of the calls. \<open>item.targetQuality || 0.8\<close> and
  \<open>item.delayDuration || 3000\<close> take the default for \<open>undefined\<close> and for 0.
\<close>

definition progress_update :: "jsnum \<Rightarrow> updates" where
  "progress_update p = no_updates\<lparr> u_progress := Some (Some p) \<rparr>"

definition convert :: "browser \<Rightarrow> ProcessedImage \<Rightarrow> updates list" where
  "convert br item =
     (let qualityToUse =
            (case targetQuality item of None \<Rightarrow> 4 / 5 | Some q \<Rightarrow> if q = 0 then 4 / 5 else q);
          duration =
            (case delayDuration item of None \<Rightarrow> 3000 | Some d \<Rightarrow> if d = 0 then 3000 else d)
      in case convertToWebP br (originalFile item) qualityToUse duration of
           (reports, settled) \<Rightarrow>
             no_updates\<lparr> u_status := Some Converting, u_progress := Some (Some (Num 0)),
                          u_error := Some None \<rparr>
             # map progress_update reports
             @ [case settled of
                  Inr blob \<Rightarrow>
                    no_updates\<lparr> u_status := Some Completed, u_webpBlob := Some (Some blob),
                      u_webpUrl := Some (Some (createObjectURL br blob)),
                      u_newSize := Some (Some (length blob)), u_progress := Some (Some (Num 100)) \<rparr>
                | Inl message \<Rightarrow>
                    no_updates\<lparr> u_status := Some Error, u_error := Some (Some message) \<rparr>])"

text \<open>
  One row of the list: the item as the list holds it, and the updates of the running
  \<open>convert\<close> call that are still to come (none when \<open>processingRef\<close> is false). A row
  changes in four ways. \<open>start_all\<close>: \<open>handleStartConversion\<close> runs (it touches the item
  only when it is idle). \<open>retry\<close>: \<open>handleRetry\<close> runs with the id of the item; the row
  renders its Retry button only while the status is \<open>error\<close>. \<open>spawn\<close>: the effect of the
  row sees status \<open>pending\<close> with no call running and calls \<open>convert\<close>, in a browser
  whose reader never reports more bytes loaded than the total. \<open>update\<close>: the next
  \<open>onUpdate\<close> of the running call reaches \<open>handleUpdateImage\<close>. A row starts as
  ingestion builds it.
\<close>

record row =
  item :: ProcessedImage
  todo :: "updates list"

inductive row_step :: "row \<Rightarrow> row \<Rightarrow> bool" where
  start_all: "row_step r (r\<lparr> item := start_one (item r) \<rparr>)"
| retry: "status (item r) = Error \<Longrightarrow>
     row_step r (r\<lparr> item := retry_one (img_id (item r)) (item r) \<rparr>)"
| spawn: "status (item r) = Pending \<Longrightarrow> todo r = [] \<Longrightarrow>
     \<forall>e \<in> set (fst (readAsDataURL br (originalFile (item r)))).
        lengthComputable e \<longrightarrow> loaded e \<le> total e \<Longrightarrow>
     row_step r (r\<lparr> todo := convert br (item r) \<rparr>)"
| update: "todo r = u # us \<Longrightarrow>
     row_step r \<lparr> item = update_one (img_id (item r)) u (item r), todo = us \<rparr>"

inductive reachable :: "row \<Rightarrow> bool" where
  fresh: "reachable \<lparr> item = (new_image i file)\<lparr> delayDuration := Some d,
                                 targetQuality := Some q \<rparr>, todo = [] \<rparr>"
| step: "reachable r \<Longrightarrow> row_step r r' \<Longrightarrow> reachable r'"

text \<open>
  The invariant of a row. Of an update only the status and the progress it sets matter
  here. With no call running the item is not converting, and its progress is 100 only if
  it is completed. With a call running the item is pending and the whole list of updates
  is still to come, or it is converting and the rest is some reports and the final update;
  a final error update comes with no report of 100 before it, a final completion comes
  with exactly one report of 100, the last.
\<close>

definition sig :: "updates \<Rightarrow> status option \<times> jsnum option option" where
  "sig u = (u_status u, u_progress u)"

definition report_sig :: "jsnum \<Rightarrow> status option \<times> jsnum option option" where
  "report_sig p = (None, Some (Some p))"

definition tail_ok :: "jsnum option \<Rightarrow> jsnum list \<Rightarrow> status option \<times> jsnum option option \<Rightarrow> bool" where
  "tail_ok p reports fin =
     ((fin = (Some Error, None) \<and> p \<noteq> Some (Num 100) \<and> Num 100 \<notin> set reports)
      \<or> (fin = (Some Completed, Some (Some (Num 100)))
          \<and> (if p = Some (Num 100) then reports = []
              else \<exists>rs. reports = rs @ [Num 100] \<and> Num 100 \<notin> set rs)))"

definition row_inv :: "row \<Rightarrow> bool" where
  "row_inv r =
     (if todo r = []
      then status (item r) \<noteq> Converting
           \<and> (progress (item r) = Some (Num 100) \<longrightarrow> status (item r) = Completed)
      else (status (item r) = Pending \<and> progress (item r) \<noteq> Some (Num 100)
            \<and> (\<exists>reports fin.
                  map sig (todo r)
                    = (Some Converting, Some (Some (Num 0))) # map report_sig reports @ [fin]
                  \<and> tail_ok (Some (Num 0)) reports fin))
           \<or> (status (item r) = Converting
               \<and> (\<exists>reports fin.
                     map sig (todo r) = map report_sig reports @ [fin]
                     \<and> tail_ok (progress (item r)) reports fin)))"

text \<open>Applying a list of updates to an item, one \<open>handleUpdateImage\<close> each.\<close>

definition apply_updates :: "updates list \<Rightarrow> ProcessedImage \<Rightarrow> ProcessedImage" where
  "apply_updates us img = foldl (\<lambda>img u. update_one (img_id img) u img) img us"

text \<open>
  A concrete run: one JPEG ingested alone (delay 4000 ms), started, and converted in a
  browser where everything succeeds. \<open>row_last\<close> is the row when every update but the
  last has been applied, \<open>row_done\<close> the row at the end.
\<close>

definition row0 :: row where
  "row0 = \<lparr> item = (new_image ''a'' (originalFile photo))\<lparr> delayDuration := Some 4000,
                        targetQuality := Some (4 / 5) \<rparr>, todo = [] \<rparr>"

definition row1 :: row where
  "row1 = row0\<lparr> item := start_one (item row0) \<rparr>"

definition row_last :: row where
  "row_last = \<lparr> item = apply_updates (butlast (convert chrome (item row1))) (item row1),
                 todo = [last (convert chrome (item row1))] \<rparr>"


lemma status_spread [simp]: "status (spread img u) = override (u_status u) (status img)"
  by (simp add: spread_def)

lemma progress_spread [simp]: "progress (spread img u) = override (u_progress u) (progress img)"
  by (simp add: spread_def)

lemma read_percent_not_100:
  assumes "loaded e \<le> total e"
  shows "read_percent e \<noteq> Num 100"
proof (cases "total e = 0")
  case True
  then show ?thesis by (simp add: read_percent_def)
next
  case False
  with assms exact_percent_bounds [of e] show ?thesis by (simp add: read_percent_def)
qed

lemma engine_reports:
  assumes "\<forall>e \<in> set (fst (readAsDataURL br file)). lengthComputable e \<longrightarrow> loaded e \<le> total e"
    and "convertToWebP br file quality duration = (reports, settled)"
  shows "case settled of
           Inl message \<Rightarrow> Num 100 \<notin> set reports
         | Inr blob \<Rightarrow> \<exists>rs. reports = rs @ [Num 100] \<and> Num 100 \<notin> set rs"
proof -
  obtain events outcome where r: "readAsDataURL br file = (events, outcome)"
    by (cases "readAsDataURL br file")
  let ?ps = "map read_percent (filter lengthComputable events)"
  let ?T = "\<lceil>(of_int duration :: rat) / 100\<rceil>"
  have ps: "Num 100 \<notin> set ?ps"
  proof
    assume "Num 100 \<in> set ?ps"
    then obtain e where e: "e \<in> set events" "lengthComputable e" "read_percent e = Num 100"
      by auto
    with assms(1) r have "loaded e \<le> total e" by simp
    from read_percent_not_100 [OF this] e(3) show False by simp
  qed
  have ts: "Num 100 \<notin> set (map Num (timer ?T 0))"
    using timer_sorted [of ?T] by fastforce
  have a: "Num 100 \<notin> set (Num 0 # ?ps)" "Num 100 \<notin> set ((Num 0 # ?ps) @ [Num 12])"
    "Num 100 \<notin> set ((Num 0 # ?ps) @ [Num 12, Num 15])"
    "Num 100 \<notin> set ((Num 0 # ?ps) @ [Num 12, Num 15] @ map Num (timer ?T 0))"
    using ps ts by simp_all
  show ?thesis
  proof (cases settled)
    case (Inl message)
    with assms(2) r a show ?thesis
      by (auto simp: convertToWebP_def Let_def split: option.splits if_splits)
  next
    case (Inr blob)
    with assms(2) r have "reports
        = ((Num 0 # ?ps) @ [Num 12, Num 15] @ map Num (timer ?T 0)) @ [Num 100]"
      by (auto simp: convertToWebP_def Let_def split: option.splits if_splits)
    with a(4) Inr show ?thesis by (simp only: sum.case) blast
  qed
qed

lemma convert_sig:
  assumes "\<forall>e \<in> set (fst (readAsDataURL br (originalFile it))).
             lengthComputable e \<longrightarrow> loaded e \<le> total e"
  shows "\<exists>reports fin.
           map sig (convert br it)
             = (Some Converting, Some (Some (Num 0))) # map report_sig reports @ [fin]
           \<and> tail_ok (Some (Num 0)) reports fin"
proof -
  let ?q = "case targetQuality it of None \<Rightarrow> 4 / 5 | Some q \<Rightarrow> if q = 0 then 4 / 5 else q"
  let ?d = "case delayDuration it of None \<Rightarrow> 3000 | Some d \<Rightarrow> if d = 0 then 3000 else d"
  obtain reports settled where c: "convertToWebP br (originalFile it) ?q ?d = (reports, settled)"
    by (cases "convertToWebP br (originalFile it) ?q ?d")
  note e = engine_reports [OF assms c]
  have m: "map sig (map progress_update reports) = map report_sig reports"
    by (simp add: sig_def progress_update_def report_sig_def no_updates_def)
  show ?thesis
  proof (cases settled)
    case (Inl message)
    with e have "Num 100 \<notin> set reports" by simp
    then have t: "tail_ok (Some (Num 0)) reports (Some Error, None)"
      by (simp add: tail_ok_def)
    have q: "map sig (convert br it)
        = (Some Converting, Some (Some (Num 0))) # map report_sig reports @ [(Some Error, None)]"
      using c Inl m by (simp add: convert_def Let_def sig_def no_updates_def)
    show ?thesis
      by (rule exI [of _ reports], rule exI [of _ "(Some Error, None)"], rule conjI [OF q t])
  next
    case (Inr blob)
    with e have "\<exists>rs. reports = rs @ [Num 100] \<and> Num 100 \<notin> set rs" by simp
    then have t: "tail_ok (Some (Num 0)) reports (Some Completed, Some (Some (Num 100)))"
      by (simp add: tail_ok_def)
    have q: "map sig (convert br it)
        = (Some Converting, Some (Some (Num 0))) # map report_sig reports
          @ [(Some Completed, Some (Some (Num 100)))]"
      using c Inr m by (simp add: convert_def Let_def sig_def no_updates_def)
    show ?thesis
      by (rule exI [of _ reports], rule exI [of _ "(Some Completed, Some (Some (Num 100)))"],
          rule conjI [OF q t])
  qed
qed

lemma tail_ok_Cons: "tail_ok p (x # xs) fin \<Longrightarrow> tail_ok (Some x) xs fin"
  by (auto simp: tail_ok_def Cons_eq_append_conv split: if_splits)

lemma tail_ok_Nil:
  "tail_ok p [] fin \<Longrightarrow>
     (fin = (Some Error, None) \<and> p \<noteq> Some (Num 100)) \<or> fin = (Some Completed, Some (Some (Num 100)))"
  by (auto simp: tail_ok_def split: if_splits)

lemma row_inv_idle:
  assumes "row_inv r" "status (item r) \<noteq> Pending" "status (item r) \<noteq> Converting"
  shows "todo r = []" "progress (item r) = Some (Num 100) \<longrightarrow> status (item r) = Completed"
  using assms by (auto simp: row_inv_def split: if_splits)

lemma row_inv_running:
  assumes "row_inv r" "todo r = u # us"
  shows "(status (item r) = Pending \<and> sig u = (Some Converting, Some (Some (Num 0)))
          \<and> (\<exists>reports fin. map sig us = map report_sig reports @ [fin]
                \<and> tail_ok (Some (Num 0)) reports fin))
       \<or> (status (item r) = Converting \<and> us = []
           \<and> ((sig u = (Some Error, None) \<and> progress (item r) \<noteq> Some (Num 100))
               \<or> sig u = (Some Completed, Some (Some (Num 100)))))
       \<or> (status (item r) = Converting \<and> us \<noteq> []
           \<and> (\<exists>x xs fin. sig u = report_sig x \<and> map sig us = map report_sig xs @ [fin]
                 \<and> tail_ok (Some x) xs fin))"
proof -
  from assms have "(status (item r) = Pending
            \<and> (\<exists>reports fin.
                  map sig (u # us)
                    = (Some Converting, Some (Some (Num 0))) # map report_sig reports @ [fin]
                  \<and> tail_ok (Some (Num 0)) reports fin))
           \<or> (status (item r) = Converting
               \<and> (\<exists>reports fin.
                     map sig (u # us) = map report_sig reports @ [fin]
                     \<and> tail_ok (progress (item r)) reports fin))"
    by (auto simp: row_inv_def)
  then show ?thesis
  proof
    assume "status (item r) = Pending
            \<and> (\<exists>reports fin.
                  map sig (u # us)
                    = (Some Converting, Some (Some (Num 0))) # map report_sig reports @ [fin]
                  \<and> tail_ok (Some (Num 0)) reports fin)"
    then show ?thesis by auto
  next
    assume a: "status (item r) = Converting
               \<and> (\<exists>reports fin.
                     map sig (u # us) = map report_sig reports @ [fin]
                     \<and> tail_ok (progress (item r)) reports fin)"
    then obtain reports fin where q: "map sig (u # us) = map report_sig reports @ [fin]"
      and t: "tail_ok (progress (item r)) reports fin" by (elim conjE exE)
    show ?thesis
    proof (cases reports)
      case Nil
      with q have "sig u = fin" "us = []" by simp_all
      with tail_ok_Nil [of "progress (item r)" fin] t Nil a show ?thesis by auto
    next
      case (Cons x xs)
      with q have "sig u = report_sig x" "map sig us = map report_sig xs @ [fin]" by simp_all
      moreover from this have "us \<noteq> []" by auto
      moreover from t Cons have "tail_ok (Some x) xs fin" by (auto dest: tail_ok_Cons)
      ultimately show ?thesis using a by blast
    qed
  qed
qed

lemma row_inv_step:
  assumes "row_inv r" "row_step r r'"
  shows "row_inv r'"
  using assms(2)
proof (cases rule: row_step.cases)
  case start_all
  show ?thesis
  proof (cases "status (item r) = Idle")
    case True
    with assms(1) have "todo r = []" "progress (item r) \<noteq> Some (Num 100)"
      using row_inv_idle [of r] by auto
    with True start_all show ?thesis
      by (simp add: row_inv_def start_one_def)
  next
    case False
    with start_all have "r' = r" by (simp add: start_one_def)
    with assms(1) show ?thesis by simp
  qed
next
  case retry
  with assms(1) have "todo r = []"
    using row_inv_idle [of r] by auto
  with retry show ?thesis
    by (simp add: row_inv_def retry_one_def)
next
  case (spawn br)
  from convert_sig [OF spawn(4)] obtain reports fin where
    q: "map sig (convert br (item r))
          = (Some Converting, Some (Some (Num 0))) # map report_sig reports @ [fin]"
    and t: "tail_ok (Some (Num 0)) reports fin" by (elim exE conjE)
  from q have ne: "convert br (item r) \<noteq> []" by auto
  from assms(1) spawn(2,3) have "progress (item r) \<noteq> Some (Num 100)"
    by (auto simp: row_inv_def)
  with spawn(1,2) ne q t show ?thesis
    by (auto simp: row_inv_def)
next
  case (update u us)
  have it: "item r' = spread (item r) u" "todo r' = us"
    using update by (simp_all add: update_one_def)
  from row_inv_running [OF assms(1) update(2)]
  consider
    (first) "status (item r) = Pending" "sig u = (Some Converting, Some (Some (Num 0)))"
      "\<exists>reports fin. map sig us = map report_sig reports @ [fin] \<and> tail_ok (Some (Num 0)) reports fin"
  | (last) "status (item r) = Converting" "us = []"
      "(sig u = (Some Error, None) \<and> progress (item r) \<noteq> Some (Num 100))
         \<or> sig u = (Some Completed, Some (Some (Num 100)))"
  | (report) "status (item r) = Converting" "us \<noteq> []"
      "\<exists>x xs fin. sig u = report_sig x \<and> map sig us = map report_sig xs @ [fin]
                 \<and> tail_ok (Some x) xs fin"
    by blast
  then show ?thesis
  proof cases
    case first
    from first(3) have "us \<noteq> []" by auto
    with first show ?thesis
      by (auto simp: row_inv_def it sig_def)
  next
    case last
    then show ?thesis
      by (auto simp: row_inv_def it sig_def)
  next
    case report
    then show ?thesis
      by (auto simp: row_inv_def it sig_def report_sig_def)
  qed
qed

lemma reachable_inv: "reachable r \<Longrightarrow> row_inv r"
proof (induction rule: reachable.induct)
  case (fresh i f d q)
  show ?case by (simp add: row_inv_def new_image_def)
next
  case (step r r')
  then show ?case by (simp add: row_inv_step)
qed

text \<open>
  C2, as amended. In every state a row can reach, an item whose progress is 100 is
  completed, or it is converting and the one update still to come is the completion: the
  engine has reported 100 and the promise has not been handled yet. An idle, pending or
  failed item never has progress 100.
\<close>

theorem progress_100_status:
  assumes "reachable r" and "progress (item r) = Some (Num 100)"
  shows "status (item r) = Completed
     \<or> (status (item r) = Converting
         \<and> (\<exists>u. todo r = [u] \<and> u_status u = Some Completed
                  \<and> u_progress u = Some (Some (Num 100))))"
proof (cases "todo r")
  case Nil
  with reachable_inv [OF assms(1)] assms(2) show ?thesis
    by (simp add: row_inv_def)
next
  case (Cons u us)
  from row_inv_running [OF reachable_inv [OF assms(1)] Cons] assms(2)
  show ?thesis
    using Cons reachable_inv [OF assms(1)]
    by (auto simp: row_inv_def sig_def report_sig_def tail_ok_def split: if_splits)
qed


lemma reachable_updates:
  "reachable r \<Longrightarrow> todo r = us @ rest \<Longrightarrow>
     reachable \<lparr> item = apply_updates us (item r), todo = rest \<rparr>"
proof (induction us arbitrary: r)
  case Nil
  have "\<lparr> item = apply_updates [] (item r), todo = rest \<rparr> = r"
    using Nil(2) by (simp add: apply_updates_def)
  with Nil(1) show ?case by simp
next
  case (Cons u us)
  let ?r = "\<lparr> item = update_one (img_id (item r)) u (item r), todo = us @ rest \<rparr>"
  from Cons.prems(2) have "row_step r ?r"
    by (intro row_step.update) simp
  with Cons.prems(1) have "reachable ?r" by (rule reachable.step)
  from Cons.IH [OF this] show ?case
    by (simp add: apply_updates_def)
qed

lemma row0_reachable: "reachable row0"
  unfolding row0_def by (rule reachable.fresh)

lemma row1_reachable: "reachable row1"
  unfolding row1_def using row0_reachable by (rule reachable.step) (rule row_step.start_all)

lemma row1_status: "status (item row1) = Pending"
  by (simp add: row1_def row0_def start_one_def new_image_def)

lemma convert_nonempty: "convert br it \<noteq> []"
  by (simp add: convert_def Let_def split: prod.split)

lemma row_spawned_reachable: "reachable (row1\<lparr> todo := convert chrome (item row1) \<rparr>)"
proof -
  have "row_step row1 (row1\<lparr> todo := convert chrome (item row1) \<rparr>)"
  proof (rule row_step.spawn)
    show "status (item row1) = Pending" by (rule row1_status)
    show "todo row1 = []" by (simp add: row1_def row0_def)
    show "\<forall>e \<in> set (fst (readAsDataURL chrome (originalFile (item row1)))).
        lengthComputable e \<longrightarrow> loaded e \<le> total e"
      by (simp add: chrome_def)
  qed
  with row1_reachable show ?thesis by (rule reachable.step)
qed

lemma row_last_reachable: "reachable row_last"
proof -
  have "todo (row1\<lparr> todo := convert chrome (item row1) \<rparr>)
      = butlast (convert chrome (item row1)) @ [last (convert chrome (item row1))]"
    by (simp add: convert_nonempty)
  from reachable_updates [OF row_spawned_reachable this] show ?thesis
    by (simp add: row_last_def)
qed


lemma row_last_item:
  "status (item row_last) = Converting" "progress (item row_last) = Some (Num 100)"
  by code_simp+


theorem progress_100_status_witness:
  "status (item row_last) = Completed
     \<or> (status (item row_last) = Converting
         \<and> (\<exists>u. todo row_last = [u] \<and> u_status u = Some Completed
                  \<and> u_progress u = Some (Some (Num 100))))"
  by (rule progress_100_status [OF row_last_reachable row_last_item(2)])

text \<open>
  After the engine has reported 100 and before the completion update, the item is still
  converting and its progress is 100.
\<close>

theorem progress_100_status_counterexample:
  "reachable row_last \<and> status (item row_last) = Converting
   \<and> progress (item row_last) = Some (Num 100)"
  using row_last_reachable row_last_item by simp



end
